theory Spec2Isabelle
  imports Main "HOL-Library.Multiset" "HOL-Library.Product_Lexorder"
begin

section \<open>The task record\<close>

text \<open>
  A task is the dictionary that \<open>TaskManager.add_task\<close> builds: seven keys, each with a
  fixed type. It is modelled as a record with one field per key (\<open>id\<close> is renamed
  \<open>task_id\<close>, the name \<open>id\<close> being the identity function of HOL). A Python \<open>int\<close> is an
  \<open>int\<close>, a \<open>str\<close> is a \<open>string\<close>, and \<open>completed_at\<close>, which is \<open>None\<close> or an ISO
  timestamp, is a \<open>string option\<close>. On such a dictionary \<open>t.get(k)\<close> and
  \<open>t.get(k, default)\<close> are the field \<open>k\<close>; the defaults that can still fire on a value
  (an unknown priority string in \<open>PRIORITIES.get\<close>) are kept. The priority is an
  arbitrary string, not an enumeration: the code stores whatever string it is given once
  it has been validated, and a document on disk may hold any string.
\<close>

record task =
  task_id :: int
  title :: string
  description :: string
  priority :: string
  completed :: bool
  created_at :: string
  completed_at :: "string option"

section \<open>Exceptions and documents\<close>

text \<open>
  The exceptions that reading the data file can raise. \<open>IOError\<close> is Python 3's alias of
  \<open>OSError\<close>; \<open>UnicodeDecodeError\<close> and \<open>json.JSONDecodeError\<close> are two different
  subclasses of \<open>ValueError\<close>; \<open>json.load\<close> raises a plain \<open>ValueError\<close> on an integer
  literal with more digits than the interpreter converts, and \<open>RecursionError\<close> on a
  document nested too deeply.

  \<open>NotTaskRecords\<close> is not a Python exception. It marks the edge of the model of the
  manager: see the property \<open>tasks\<close> below.
\<close>

datatype exn =
    JSONDecodeError | OSError | UnicodeDecodeError | RecursionError | ValueError
  | NotTaskRecords

text \<open>
  What \<open>json.load\<close> can return: a list of task records (\<open>Tasks\<close>), or any other value
  (\<open>Other\<close>): \<open>null\<close>, a number, a string, an object, or a list that holds something that
  is not a dictionary with the seven keys of a task and values of their types.
\<close>

datatype document = Tasks "task list" | Other

section \<open>The json module\<close>

text \<open>
  \<open>json.dump\<close> and \<open>json.load\<close> as \<open>storage.py\<close> calls them. The module is Python's, not
  the repository's; this section follows what the module does (CPython, with the
  defaults of \<open>json.load\<close>), within these limits:
  \<^item> a \<open>str\<close> is a string of code points below 256, one \<open>char\<close> each; a JSON string
    with a larger code point is read as \<open>JStr None\<close>, a string outside the model;
  \<^item> a number with a fraction or an exponent, \<open>NaN\<close> and the infinities are read as
    \<open>JFloat\<close>, without their value;
  \<^item> the interpreter converts integers of at most \<open>max_str_digits\<close> digits to and from
    text (\<open>sys.get_int_max_str_digits()\<close>, 4300 unless configured) and raises
    \<open>ValueError\<close> beyond; the writer below does not model that limit, the reader does.
\<close>

datatype json =
    JNull
  | JBool bool
  | JInt int
  | JFloat
  | JStr "string option"
  | JArr "json list"
  | JObj "(string option \<times> json) list"

subsection \<open>Writing\<close>

text \<open>
  \<open>json.dump(tasks, f, indent=2, default=str)\<close> on a list of task dictionaries. The
  keys come in the order in which \<open>add_task\<close> builds the dictionary. With
  \<open>ensure_ascii\<close>, which is the default, a string is written between quotation marks
  with \<open>\"\<close>, \<open>\\\<close>, \<open>\n\<close>, \<open>\r\<close>, \<open>\t\<close>, \<open>\b\<close>, \<open>\f\<close> for these seven characters,
  every other character from the space to \<open>~\<close> as it is, and every remaining one as
  \<open>\u00XX\<close> with two lower-case hexadecimal digits. An integer is written in decimal.
  With \<open>indent=2\<close> every item and every member starts a new line, indented by two
  spaces per level; the empty list is \<open>[]\<close>.
\<close>

definition hex_char :: "nat \<Rightarrow> char" where
  "hex_char v = (if v < 10 then char_of (48 + v) else char_of (87 + v))"

definition escape_char :: "char \<Rightarrow> string" where
  "escape_char c =
     (if c = CHR 0x22 then [CHR 0x5C, CHR 0x22]
      else if c = CHR 0x5C then [CHR 0x5C, CHR 0x5C]
      else if c = CHR 0x0A then [CHR 0x5C, CHR ''n'']
      else if c = CHR 0x0D then [CHR 0x5C, CHR ''r'']
      else if c = CHR 0x09 then [CHR 0x5C, CHR ''t'']
      else if c = CHR 0x08 then [CHR 0x5C, CHR ''b'']
      else if c = CHR 0x0C then [CHR 0x5C, CHR ''f'']
      else (let n = (of_char c :: nat) in
            if 32 \<le> n \<and> n \<le> 126 then [c]
            else [CHR 0x5C, CHR ''u'', CHR ''0'', CHR ''0'',
                  hex_char (n div 16), hex_char (n mod 16)]))"

definition encode_string :: "string \<Rightarrow> string" where
  "encode_string s = CHR 0x22 # concat (map escape_char s) @ [CHR 0x22]"

function digits :: "nat \<Rightarrow> nat list" where
  "digits n = (if n < 10 then [n] else digits (n div 10) @ [n mod 10])"
  by pat_completeness auto
termination
  by (relation "measure (\<lambda>n. n)") auto

declare digits.simps [simp del]

definition digit_char :: "nat \<Rightarrow> char" where
  "digit_char d = char_of (48 + d)"

definition encode_int :: "int \<Rightarrow> string" where
  "encode_int i =
     (if i < 0 then CHR ''-'' # map digit_char (digits (nat (- i)))
      else map digit_char (digits (nat i)))"

definition object_member :: "string \<Rightarrow> string \<Rightarrow> string" where
  "object_member k v = ''    '' @ encode_string k @ '': '' @ v"

definition encode_task :: "task \<Rightarrow> string" where
  "encode_task t =
     ''{'' @ [CHR 0x0A]
     @ object_member ''id'' (encode_int (task_id t)) @ '','' @ [CHR 0x0A]
     @ object_member ''title'' (encode_string (title t)) @ '','' @ [CHR 0x0A]
     @ object_member ''description'' (encode_string (description t)) @ '','' @ [CHR 0x0A]
     @ object_member ''priority'' (encode_string (priority t)) @ '','' @ [CHR 0x0A]
     @ object_member ''completed'' (if completed t then ''true'' else ''false'') @ '','' @ [CHR 0x0A]
     @ object_member ''created_at'' (encode_string (created_at t)) @ '','' @ [CHR 0x0A]
     @ object_member ''completed_at''
         (case completed_at t of None \<Rightarrow> ''null'' | Some s \<Rightarrow> encode_string s)
     @ [CHR 0x0A] @ ''  }''"

fun encode_items :: "task list \<Rightarrow> string" where
  "encode_items [] = []"
| "encode_items [t] = encode_task t"
| "encode_items (t # ts) = encode_task t @ '','' @ [CHR 0x0A] @ ''  '' @ encode_items ts"

definition json_dumps :: "task list \<Rightarrow> string" where
  "json_dumps ts =
     (if ts = [] then ''[]''
      else ''['' @ [CHR 0x0A] @ ''  '' @ encode_items ts @ [CHR 0x0A] @ '']'')"

subsection \<open>Reading: characters to tokens\<close>

text \<open>
  \<open>json.load\<close>, first part: the characters of the text, one at a time, into tokens.
  White space is the space, the tab, the line feed and the carriage return. A number is
  an optional minus, then \<open>0\<close> or a digit from 1 to 9 followed by digits, then an optional
  fraction and an optional exponent; it is an integer when it has neither, and an
  integer with more than \<open>max_str_digits\<close> digits is the token \<open>TBig\<close>. Inside a string a
  character below the space is an error and a backslash starts one of the escapes
  \<open>\"\<close>, \<open>\\\<close>, \<open>\/\<close>, \<open>\b\<close>, \<open>\f\<close>, \<open>\n\<close>, \<open>\r\<close>, \<open>\t\<close> or \<open>\u\<close> with four hexadecimal
  digits. The literals are \<open>true\<close>, \<open>false\<close>, \<open>null\<close>, \<open>NaN\<close>, \<open>Infinity\<close> and
  \<open>-Infinity\<close>. The token \<open>TBad\<close> marks the place of a character that fits nothing; no
  token follows it.
\<close>

datatype token =
    LBracket | RBracket | LBrace | RBrace | Comma | Colon
  | TStr "string option" | TInt int | TBig | TFloat | TTrue | TFalse | TNull | TBad

datatype scan_state =
    Idle
  | InString string bool
  | Escape string bool
  | Unicode string bool nat nat
  | Minus
  | Zero
  | Digits bool nat nat
  | FracStart | Frac | ExpStart | ExpSign | Exp
  | Literal string token
  | Failed

definition digit_val :: "char \<Rightarrow> nat option" where
  "digit_val c =
     (let n = (of_char c :: nat) in if 48 \<le> n \<and> n \<le> 57 then Some (n - 48) else None)"

definition hex_val :: "char \<Rightarrow> nat option" where
  "hex_val c =
     (let n = (of_char c :: nat) in
      if 48 \<le> n \<and> n \<le> 57 then Some (n - 48)
      else if 97 \<le> n \<and> n \<le> 102 then Some (n - 87)
      else if 65 \<le> n \<and> n \<le> 70 then Some (n - 55)
      else None)"

definition unescape :: "char \<Rightarrow> char option" where
  "unescape c =
     (if c = CHR 0x22 then Some (CHR 0x22)
      else if c = CHR 0x5C then Some (CHR 0x5C)
      else if c = CHR ''/'' then Some (CHR ''/'')
      else if c = CHR ''b'' then Some (CHR 0x08)
      else if c = CHR ''f'' then Some (CHR 0x0C)
      else if c = CHR ''n'' then Some (CHR 0x0A)
      else if c = CHR ''r'' then Some (CHR 0x0D)
      else if c = CHR ''t'' then Some (CHR 0x09)
      else None)"

definition max_str_digits :: nat where
  "max_str_digits = 4300"

definition int_token :: "bool \<Rightarrow> nat \<Rightarrow> nat \<Rightarrow> token" where
  "int_token neg v k =
     (if k > max_str_digits then TBig else TInt (if neg then - int v else int v))"

definition idle_step :: "char \<Rightarrow> token list \<times> scan_state" where
  "idle_step c =
     (if c = CHR '' '' \<or> c = CHR 0x09 \<or> c = CHR 0x0A \<or> c = CHR 0x0D then ([], Idle)
      else if c = CHR ''['' then ([LBracket], Idle)
      else if c = CHR '']'' then ([RBracket], Idle)
      else if c = CHR ''{'' then ([LBrace], Idle)
      else if c = CHR ''}'' then ([RBrace], Idle)
      else if c = CHR '','' then ([Comma], Idle)
      else if c = CHR '':'' then ([Colon], Idle)
      else if c = CHR 0x22 then ([], InString [] False)
      else if c = CHR ''-'' then ([], Minus)
      else if c = CHR ''t'' then ([], Literal ''rue'' TTrue)
      else if c = CHR ''f'' then ([], Literal ''alse'' TFalse)
      else if c = CHR ''n'' then ([], Literal ''ull'' TNull)
      else if c = CHR ''N'' then ([], Literal ''aN'' TFloat)
      else if c = CHR ''I'' then ([], Literal ''nfinity'' TFloat)
      else (case digit_val c of
              Some d \<Rightarrow> if d = 0 then ([], Zero) else ([], Digits False d 1)
            | None \<Rightarrow> ([TBad], Failed)))"

definition after :: "token \<Rightarrow> char \<Rightarrow> token list \<times> scan_state" where
  "after t c = (case idle_step c of (ts, st) \<Rightarrow> (t # ts, st))"

fun scan_step :: "scan_state \<Rightarrow> char \<Rightarrow> token list \<times> scan_state" where
  "scan_step Idle c = idle_step c"
| "scan_step (InString acc w) c =
     (if c = CHR 0x22 then ([TStr (if w then None else Some (rev acc))], Idle)
      else if c = CHR 0x5C then ([], Escape acc w)
      else if (of_char c :: nat) < 32 then ([TBad], Failed)
      else ([], InString (c # acc) w))"
| "scan_step (Escape acc w) c =
     (case unescape c of
        Some e \<Rightarrow> ([], InString (e # acc) w)
      | None \<Rightarrow> if c = CHR ''u'' then ([], Unicode acc w 0 0) else ([TBad], Failed))"
| "scan_step (Unicode acc w k code) c =
     (case hex_val c of
        None \<Rightarrow> ([TBad], Failed)
      | Some v \<Rightarrow>
          (let code' = 16 * code + v in
           if k < 3 then ([], Unicode acc w (Suc k) code')
           else if code' < 256 then ([], InString (char_of code' # acc) w)
           else ([], InString acc True)))"
| "scan_step Minus c =
     (case digit_val c of
        Some d \<Rightarrow> if d = 0 then ([], Zero) else ([], Digits True d 1)
      | None \<Rightarrow> if c = CHR ''I'' then ([], Literal ''nfinity'' TFloat) else ([TBad], Failed))"
| "scan_step Zero c =
     (if c = CHR ''.'' then ([], FracStart)
      else if c = CHR ''e'' \<or> c = CHR ''E'' then ([], ExpStart)
      else if digit_val c \<noteq> None then ([TBad], Failed)
      else after (TInt 0) c)"
| "scan_step (Digits neg v k) c =
     (case digit_val c of
        Some d \<Rightarrow> ([], Digits neg (10 * v + d) (Suc k))
      | None \<Rightarrow>
          if c = CHR ''.'' then ([], FracStart)
          else if c = CHR ''e'' \<or> c = CHR ''E'' then ([], ExpStart)
          else after (int_token neg v k) c)"
| "scan_step FracStart c = (if digit_val c \<noteq> None then ([], Frac) else ([TBad], Failed))"
| "scan_step Frac c =
     (if digit_val c \<noteq> None then ([], Frac)
      else if c = CHR ''e'' \<or> c = CHR ''E'' then ([], ExpStart)
      else after TFloat c)"
| "scan_step ExpStart c =
     (if c = CHR ''+'' \<or> c = CHR ''-'' then ([], ExpSign)
      else if digit_val c \<noteq> None then ([], Exp)
      else ([TBad], Failed))"
| "scan_step ExpSign c = (if digit_val c \<noteq> None then ([], Exp) else ([TBad], Failed))"
| "scan_step Exp c = (if digit_val c \<noteq> None then ([], Exp) else after TFloat c)"
| "scan_step (Literal rest t) c =
     (case rest of
        [] \<Rightarrow> ([TBad], Failed)
      | r # rs \<Rightarrow>
          if c \<noteq> r then ([TBad], Failed)
          else if rs = [] then ([t], Idle)
          else ([], Literal rs t))"
| "scan_step Failed c = ([], Failed)"

fun finish :: "scan_state \<Rightarrow> token list" where
  "finish Idle = []"
| "finish Zero = [TInt 0]"
| "finish (Digits neg v k) = [int_token neg v k]"
| "finish Frac = [TFloat]"
| "finish Exp = [TFloat]"
| "finish Failed = []"
| "finish st = [TBad]"

fun scan :: "scan_state \<Rightarrow> string \<Rightarrow> token list" where
  "scan st [] = finish st"
| "scan st (c # cs) = (case scan_step st c of (ts, st') \<Rightarrow> ts @ scan st' cs)"

subsection \<open>Reading: tokens to a value\<close>

text \<open>
  \<open>json.load\<close>, second part: the tokens, one at a time, into a value. The stack holds
  the arrays and objects that are open; \<open>d\<close> is the number of them that the interpreter
  allows before it raises \<open>RecursionError\<close>. The first token that does not fit raises:
  \<open>ValueError\<close> for an integer that is too long where a value is expected,
  \<open>JSONDecodeError\<close> for everything else, also for a text that ends too early or goes
  on after its value.
\<close>

datatype mode = Value | ValueOrEnd | KeyOrEnd | Key | ColonNext | Next | Finished json

datatype frame =
    InArray "json list"
  | InObject "(string option \<times> json) list"
  | AtKey "(string option \<times> json) list" "string option"

fun put :: "json \<Rightarrow> frame list \<Rightarrow> exn + (mode \<times> frame list)" where
  "put v [] = Inr (Finished v, [])"
| "put v (InArray xs # st) = Inr (Next, InArray (v # xs) # st)"
| "put v (AtKey ms k # st) = Inr (Next, InObject ((k, v) # ms) # st)"
| "put v (InObject ms # st) = Inl JSONDecodeError"

fun close_array :: "frame list \<Rightarrow> exn + (mode \<times> frame list)" where
  "close_array (InArray xs # st) = put (JArr (rev xs)) st"
| "close_array st = Inl JSONDecodeError"

fun close_object :: "frame list \<Rightarrow> exn + (mode \<times> frame list)" where
  "close_object (InObject ms # st) = put (JObj (rev ms)) st"
| "close_object st = Inl JSONDecodeError"

fun at_key :: "string option \<Rightarrow> frame list \<Rightarrow> exn + (mode \<times> frame list)" where
  "at_key k (InObject ms # st) = Inr (ColonNext, AtKey ms k # st)"
| "at_key k st = Inl JSONDecodeError"

fun value_token :: "nat \<Rightarrow> token \<Rightarrow> frame list \<Rightarrow> exn + (mode \<times> frame list)" where
  "value_token d (TStr s) st = put (JStr s) st"
| "value_token d (TInt i) st = put (JInt i) st"
| "value_token d TFloat st = put JFloat st"
| "value_token d TTrue st = put (JBool True) st"
| "value_token d TFalse st = put (JBool False) st"
| "value_token d TNull st = put JNull st"
| "value_token d TBig st = Inl ValueError"
| "value_token d LBracket st =
     (if length st < d then Inr (ValueOrEnd, InArray [] # st) else Inl RecursionError)"
| "value_token d LBrace st =
     (if length st < d then Inr (KeyOrEnd, InObject [] # st) else Inl RecursionError)"
| "value_token d t st = Inl JSONDecodeError"

fun advance :: "nat \<Rightarrow> mode \<Rightarrow> frame list \<Rightarrow> token \<Rightarrow> exn + (mode \<times> frame list)" where
  "advance d Value st t = value_token d t st"
| "advance d ValueOrEnd st t = (if t = RBracket then close_array st else value_token d t st)"
| "advance d KeyOrEnd st t =
     (case t of RBrace \<Rightarrow> close_object st | TStr k \<Rightarrow> at_key k st | _ \<Rightarrow> Inl JSONDecodeError)"
| "advance d Key st t = (case t of TStr k \<Rightarrow> at_key k st | _ \<Rightarrow> Inl JSONDecodeError)"
| "advance d ColonNext st t = (if t = Colon then Inr (Value, st) else Inl JSONDecodeError)"
| "advance d Next st t =
     (case t of
        Comma \<Rightarrow>
          (case st of
             InArray xs # st' \<Rightarrow> Inr (Value, st)
           | InObject ms # st' \<Rightarrow> Inr (Key, st)
           | _ \<Rightarrow> Inl JSONDecodeError)
      | RBracket \<Rightarrow> close_array st
      | RBrace \<Rightarrow> close_object st
      | _ \<Rightarrow> Inl JSONDecodeError)"
| "advance d (Finished v) st t = Inl JSONDecodeError"

fun parse :: "nat \<Rightarrow> mode \<Rightarrow> frame list \<Rightarrow> token list \<Rightarrow> exn + json" where
  "parse d md st [] = (case md of Finished v \<Rightarrow> Inr v | _ \<Rightarrow> Inl JSONDecodeError)"
| "parse d md st (t # ts) =
     (case advance d md st t of
        Inl e \<Rightarrow> Inl e
      | Inr (md', st') \<Rightarrow> parse d md' st' ts)"

definition json_value :: "nat \<Rightarrow> string \<Rightarrow> exn + json" where
  "json_value d s = parse d Value [] (scan Idle s)"

subsection \<open>The document of a value\<close>

text \<open>
  A dictionary built from a JSON object keeps, for a key that occurs twice, the last
  value. A value is a task record when it is an object with exactly the seven keys of a
  task, each with a value of its type.
\<close>

definition task_keys :: "string list" where
  "task_keys =
     [''id'', ''title'', ''description'', ''priority'', ''completed'', ''created_at'',
      ''completed_at'']"

definition int_of :: "json option \<Rightarrow> int option" where
  "int_of v = (case v of Some (JInt i) \<Rightarrow> Some i | _ \<Rightarrow> None)"

definition str_of :: "json option \<Rightarrow> string option" where
  "str_of v = (case v of Some (JStr (Some s)) \<Rightarrow> Some s | _ \<Rightarrow> None)"

definition bool_of :: "json option \<Rightarrow> bool option" where
  "bool_of v = (case v of Some (JBool b) \<Rightarrow> Some b | _ \<Rightarrow> None)"

definition str_or_null_of :: "json option \<Rightarrow> string option option" where
  "str_or_null_of v =
     (case v of Some JNull \<Rightarrow> Some None | Some (JStr (Some s)) \<Rightarrow> Some (Some s) | _ \<Rightarrow> None)"

definition as_task :: "json \<Rightarrow> task option" where
  "as_task v =
     (case v of
        JObj ms \<Rightarrow>
          (let d = map_of (rev ms) in
           if set (map fst ms) \<noteq> set (map Some task_keys) then None
           else
             (case int_of (d (Some ''id'')) of None \<Rightarrow> None | Some i \<Rightarrow>
             (case str_of (d (Some ''title'')) of None \<Rightarrow> None | Some ttl \<Rightarrow>
             (case str_of (d (Some ''description'')) of None \<Rightarrow> None | Some descr \<Rightarrow>
             (case str_of (d (Some ''priority'')) of None \<Rightarrow> None | Some prio \<Rightarrow>
             (case bool_of (d (Some ''completed'')) of None \<Rightarrow> None | Some done \<Rightarrow>
             (case str_of (d (Some ''created_at'')) of None \<Rightarrow> None | Some created \<Rightarrow>
             (case str_or_null_of (d (Some ''completed_at'')) of None \<Rightarrow> None
              | Some finished \<Rightarrow>
                  Some \<lparr>task_id = i, title = ttl, description = descr, priority = prio,
                        completed = done, created_at = created,
                        completed_at = finished\<rparr>))))))))
      | _ \<Rightarrow> None)"

definition document_of :: "json \<Rightarrow> document" where
  "document_of v =
     (case v of
        JArr xs \<Rightarrow> (case those (map as_task xs) of Some ts \<Rightarrow> Tasks ts | None \<Rightarrow> Other)
      | _ \<Rightarrow> Other)"

text \<open>
  \<open>json.load\<close> on a text, in an interpreter that allows \<open>d\<close> levels of nesting.
\<close>

definition json_loads :: "nat \<Rightarrow> string \<Rightarrow> exn + document" where
  "json_loads d s =
     (case json_value d s of Inl e \<Rightarrow> Inl e | Inr v \<Rightarrow> Inr (document_of v))"

subsection \<open>What is written, as tokens and as a value\<close>

text \<open>
  The tokens and the value of the text that \<open>encode_task\<close> writes; the lemmas \<open>scan_task\<close>
  and \<open>parse_task\<close> show that the reader finds exactly these.
\<close>

definition task_tokens :: "task \<Rightarrow> token list" where
  "task_tokens t =
     [LBrace,
      TStr (Some ''id''), Colon, TInt (task_id t), Comma,
      TStr (Some ''title''), Colon, TStr (Some (title t)), Comma,
      TStr (Some ''description''), Colon, TStr (Some (description t)), Comma,
      TStr (Some ''priority''), Colon, TStr (Some (priority t)), Comma,
      TStr (Some ''completed''), Colon, (if completed t then TTrue else TFalse), Comma,
      TStr (Some ''created_at''), Colon, TStr (Some (created_at t)), Comma,
      TStr (Some ''completed_at''), Colon,
      (case completed_at t of None \<Rightarrow> TNull | Some s \<Rightarrow> TStr (Some s)),
      RBrace]"

fun items_tokens :: "task list \<Rightarrow> token list" where
  "items_tokens [] = []"
| "items_tokens [t] = task_tokens t"
| "items_tokens (t # ts) = task_tokens t @ Comma # items_tokens ts"

definition task_json :: "task \<Rightarrow> json" where
  "task_json t =
     JObj [(Some ''id'', JInt (task_id t)),
           (Some ''title'', JStr (Some (title t))),
           (Some ''description'', JStr (Some (description t))),
           (Some ''priority'', JStr (Some (priority t))),
           (Some ''completed'', JBool (completed t)),
           (Some ''created_at'', JStr (Some (created_at t))),
           (Some ''completed_at'',
              (case completed_at t of None \<Rightarrow> JNull | Some s \<Rightarrow> JStr (Some s)))]"

text \<open>
  A collection is well formed when every id is an integer that the interpreter converts
  to and from text: fewer than \<open>max_str_digits\<close> + 1 digits.
\<close>

definition well_formed :: "task list \<Rightarrow> bool" where
  "well_formed ts = list_all (\<lambda>t. \<bar>task_id t\<bar> < 10 ^ max_str_digits) ts"

section \<open>storage.py\<close>

text \<open>
  The data file, as \<open>load_tasks\<close> can find it:
  \<^item> \<open>Absent\<close>: \<open>os.path.exists\<close> is false;
  \<^item> \<open>Unreadable\<close>: the path exists and \<open>open\<close> raises \<open>OSError\<close> (a directory, no
    permission);
  \<^item> \<open>Undecodable\<close>: the file opens and its bytes are not valid UTF-8, so that the
    \<open>f.read()\<close> inside \<open>json.load\<close> raises \<open>UnicodeDecodeError\<close>;
  \<^item> \<open>Text s\<close>: the file opens and decodes to the text \<open>s\<close>.
\<close>

datatype disk_file = Absent | Unreadable | Undecodable | Text string

text \<open>
  The \<open>json\<close> module is not part of the repository. The storage and the manager take it
  as a parameter: \<open>dumps\<close> is the text that \<open>json.dump(tasks, f, indent=2, default=str)\<close>
  writes, and \<open>loads s\<close> is what \<open>json.load\<close> does on the text \<open>s\<close>: the exception it
  raises or the document it returns. The instance \<open>json_codec\<close> is the \<open>json\<close> module of the
  section above.
\<close>

record codec =
  dumps :: "task list \<Rightarrow> string"
  loads :: "string \<Rightarrow> exn + document"

text \<open>The instance of the parameter that follows the \<open>json\<close> module.\<close>

definition json_codec :: "nat \<Rightarrow> codec" where
  "json_codec d = \<lparr>dumps = json_dumps, loads = json_loads d\<rparr>"

text \<open>
  The state behind a \<open>TaskStorage\<close> object: the file at \<open>self.data_file\<close>, and a ghost
  counter of the calls of \<open>save_tasks\<close>, which makes a write observable even when it
  writes the text that was already there. The destination is taken to be writable.
\<close>

record task_storage =
  data_file :: disk_file
  saves :: nat

text \<open>The body of the \<open>try\<close> block: \<open>open(self.data_file, 'r')\<close> and \<open>json.load(f)\<close>.\<close>

definition json_load :: "codec \<Rightarrow> disk_file \<Rightarrow> exn + document" where
  "json_load J f =
     (case f of
        Absent \<Rightarrow> Inl OSError
      | Unreadable \<Rightarrow> Inl OSError
      | Undecodable \<Rightarrow> Inl UnicodeDecodeError
      | Text s \<Rightarrow> loads J s)"

text \<open>The handler \<open>except (json.JSONDecodeError, IOError)\<close>.\<close>

definition caught :: "exn \<Rightarrow> bool" where
  "caught e = (e = JSONDecodeError \<or> e = OSError)"

definition load_tasks :: "codec \<Rightarrow> task_storage \<Rightarrow> exn + document" where
  "load_tasks J st =
     (if data_file st = Absent then Inr (Tasks [])
      else (case json_load J (data_file st) of
              Inr d \<Rightarrow> Inr d
            | Inl e \<Rightarrow> if caught e then Inr (Tasks []) else Inl e))"

definition save_tasks :: "codec \<Rightarrow> task list \<Rightarrow> task_storage \<Rightarrow> task_storage" where
  "save_tasks J ts st = st\<lparr>data_file := Text (dumps J ts), saves := Suc (saves st)\<rparr>"

fun get_next_id :: "task list \<Rightarrow> int" where
  "get_next_id [] = 1"
| "get_next_id (t # ts) = fold max (map task_id ts) (task_id t) + 1"

section \<open>task_manager.py\<close>

definition PRIORITIES :: "(string \<times> int) list" where
  "PRIORITIES = [(''high'', 3), (''medium'', 2), (''low'', 1)]"

text \<open>
  \<open>str.lower\<close> on the letters \<open>A\<close> to \<open>Z\<close>; every other character is left as it is.
  The code only tests the result for membership in \<open>PRIORITIES\<close> and stores or compares
  it when the test succeeds, and no character outside \<open>A\<close> to \<open>Z\<close> lower-cases to a
  letter of \<open>high\<close>, \<open>medium\<close> or \<open>low\<close>.
\<close>

definition lower_char :: "char \<Rightarrow> char" where
  "lower_char c =
     (let n = (of_char c :: nat) in
      if 65 \<le> n \<and> n \<le> 90
      then (case c of Char b0 b1 b2 b3 b4 b5 b6 b7 \<Rightarrow> Char b0 b1 b2 b3 b4 True b6 b7)
      else c)"

definition lower :: "string \<Rightarrow> string" where
  "lower s = map lower_char s"

text \<open>
  A \<open>TaskManager\<close>: the attribute \<open>self._tasks\<close> (\<open>None\<close> until the first access) and the
  storage it was built with.
\<close>

record task_manager =
  tasks_attr :: "task list option"
  storage :: task_storage

text \<open>
  The property \<open>tasks\<close>: the first access loads the collection and caches it. An
  exception of \<open>load_tasks\<close> leaves the manager as it was.

  When \<open>load_tasks\<close> returns a document that is not a list of task records, the code
  stores that value in \<open>self._tasks\<close>, and what each operation then does depends on the
  value (on \<open>null\<close> every operation raises \<open>TypeError\<close> or \<open>AttributeError\<close>). The
  manager is modelled on lists of task records only, and the model ends there with the
  result \<open>NotTaskRecords\<close>.
\<close>

definition tasks :: "codec \<Rightarrow> task_manager \<Rightarrow> exn + (task list \<times> task_manager)" where
  "tasks J m =
     (case tasks_attr m of
        Some ts \<Rightarrow> Inr (ts, m)
      | None \<Rightarrow> (case load_tasks J (storage m) of
                   Inl e \<Rightarrow> Inl e
                 | Inr (Tasks ts) \<Rightarrow> Inr (ts, m\<lparr>tasks_attr := Some ts\<rparr>)
                 | Inr Other \<Rightarrow> Inl NotTaskRecords))"

text \<open>
  \<open>_save\<close> writes \<open>self._tasks\<close>. Every operation reads \<open>self.tasks\<close> before it saves, so
  the attribute is never \<open>None\<close> there; \<open>json.dump(None, ...)\<close> would write \<open>null\<close>.
\<close>

definition save :: "codec \<Rightarrow> task_manager \<Rightarrow> task_manager" where
  "save J m =
     (case tasks_attr m of
        Some ts \<Rightarrow> m\<lparr>storage := save_tasks J ts (storage m)\<rparr>
      | None \<Rightarrow> m\<lparr>storage := (storage m)\<lparr>data_file := Text ''null'',
                                            saves := Suc (saves (storage m))\<rparr>\<rparr>)"

text \<open>
  \<open>add_task\<close>. The argument \<open>now\<close> is the value of \<open>datetime.now().isoformat()\<close> at the
  call.
\<close>

definition add_task ::
  "codec \<Rightarrow> string \<Rightarrow> string \<Rightarrow> string \<Rightarrow> string \<Rightarrow> task_manager
     \<Rightarrow> exn + (task \<times> task_manager)" where
  "add_task J now ttl prio descr m =
     (let p = lower prio;
          p = (if map_of PRIORITIES p = None then ''medium'' else p)
      in case tasks J m of
           Inl e \<Rightarrow> Inl e
         | Inr (ts, m1) \<Rightarrow>
             (let t = \<lparr>task_id = get_next_id ts, title = ttl, description = descr,
                       priority = p, completed = False, created_at = now,
                       completed_at = None\<rparr>
              in Inr (t, save J (m1\<lparr>tasks_attr := Some (ts @ [t])\<rparr>))))"

definition get_task ::
  "codec \<Rightarrow> int \<Rightarrow> task_manager \<Rightarrow> exn + (task option \<times> task_manager)" where
  "get_task J tid m =
     (case tasks J m of
        Inl e \<Rightarrow> Inl e
      | Inr (ts, m1) \<Rightarrow> Inr (find (\<lambda>t. task_id t = tid) ts, m1))"

text \<open>The sort key of \<open>list_tasks\<close>; tuples compare lexicographically.\<close>

definition sort_key_of :: "task \<Rightarrow> int \<times> int" where
  "sort_key_of t =
     (- (case map_of PRIORITIES (priority t) of Some r \<Rightarrow> r | None \<Rightarrow> 2), task_id t)"

text \<open>
  The body of \<open>list_tasks\<close> on the copy of the collection: the status filter, the
  priority filter (\<open>if priority and priority.lower() in self.PRIORITIES\<close>) and the sort.
  \<open>list.sort\<close> is stable, as \<open>sort_key\<close> is.
\<close>

definition filter_status :: "string option \<Rightarrow> task list \<Rightarrow> task list" where
  "filter_status status ts =
     (if status = Some ''completed'' then filter (\<lambda>t. completed t) ts
      else if status = Some ''pending'' then filter (\<lambda>t. \<not> completed t) ts
      else ts)"

definition filter_priority :: "string option \<Rightarrow> task list \<Rightarrow> task list" where
  "filter_priority prio ts =
     (case prio of
        None \<Rightarrow> ts
      | Some p \<Rightarrow>
          if p \<noteq> [] \<and> map_of PRIORITIES (lower p) \<noteq> None
          then filter (\<lambda>t. priority t = lower p) ts
          else ts)"

definition listing :: "string option \<Rightarrow> string option \<Rightarrow> task list \<Rightarrow> task list" where
  "listing status prio ts =
     sort_key sort_key_of (filter_priority prio (filter_status status ts))"

definition list_tasks ::
  "codec \<Rightarrow> string option \<Rightarrow> string option \<Rightarrow> task_manager
     \<Rightarrow> exn + (task list \<times> task_manager)" where
  "list_tasks J status prio m =
     (case tasks J m of
        Inl e \<Rightarrow> Inl e
      | Inr (ts, m1) \<Rightarrow> Inr (listing status prio ts, m1))"

text \<open>
  \<open>get_task\<close> returns the dictionary that sits in the list, and the callers assign to its
  keys: the first task with the id changes in place.
\<close>

fun mutate_first :: "int \<Rightarrow> (task \<Rightarrow> task) \<Rightarrow> task list \<Rightarrow> task list" where
  "mutate_first tid f [] = []"
| "mutate_first tid f (t # ts) =
     (if task_id t = tid then f t # ts else t # mutate_first tid f ts)"

definition complete_task ::
  "codec \<Rightarrow> string \<Rightarrow> int \<Rightarrow> task_manager \<Rightarrow> exn + (task option \<times> task_manager)" where
  "complete_task J now tid m =
     (case tasks J m of
        Inl e \<Rightarrow> Inl e
      | Inr (ts, m1) \<Rightarrow>
          (case find (\<lambda>t. task_id t = tid) ts of
             None \<Rightarrow> Inr (None, m1)
           | Some t \<Rightarrow>
               (let f = (\<lambda>t. t\<lparr>completed := True, completed_at := Some now\<rparr>)
                in Inr (Some (f t),
                        save J (m1\<lparr>tasks_attr := Some (mutate_first tid f ts)\<rparr>)))))"

definition uncomplete_task ::
  "codec \<Rightarrow> int \<Rightarrow> task_manager \<Rightarrow> exn + (task option \<times> task_manager)" where
  "uncomplete_task J tid m =
     (case tasks J m of
        Inl e \<Rightarrow> Inl e
      | Inr (ts, m1) \<Rightarrow>
          (case find (\<lambda>t. task_id t = tid) ts of
             None \<Rightarrow> Inr (None, m1)
           | Some t \<Rightarrow>
               (let f = (\<lambda>t. t\<lparr>completed := False, completed_at := None\<rparr>)
                in Inr (Some (f t),
                        save J (m1\<lparr>tasks_attr := Some (mutate_first tid f ts)\<rparr>)))))"

text \<open>The loop of \<open>delete_task\<close>: the first task with the id is popped; \<open>None\<close> when the
  loop ends without a match.\<close>

fun pop_first :: "int \<Rightarrow> task list \<Rightarrow> task list option" where
  "pop_first tid [] = None"
| "pop_first tid (t # ts) =
     (if task_id t = tid then Some ts
      else (case pop_first tid ts of None \<Rightarrow> None | Some ts' \<Rightarrow> Some (t # ts')))"

definition delete_task ::
  "codec \<Rightarrow> int \<Rightarrow> task_manager \<Rightarrow> exn + (bool \<times> task_manager)" where
  "delete_task J tid m =
     (case tasks J m of
        Inl e \<Rightarrow> Inl e
      | Inr (ts, m1) \<Rightarrow>
          (case pop_first tid ts of
             None \<Rightarrow> Inr (False, m1)
           | Some ts' \<Rightarrow> Inr (True, save J (m1\<lparr>tasks_attr := Some ts'\<rparr>))))"

text \<open>The three assignments of \<open>update_task\<close>; an argument left out is \<open>None\<close>.\<close>

definition apply_update ::
  "string option \<Rightarrow> string option \<Rightarrow> string option \<Rightarrow> task \<Rightarrow> task" where
  "apply_update ttl descr prio t =
     (let t1 = (case ttl of None \<Rightarrow> t | Some s \<Rightarrow> t\<lparr>title := s\<rparr>);
          t2 = (case descr of None \<Rightarrow> t1 | Some s \<Rightarrow> t1\<lparr>description := s\<rparr>)
      in case prio of
           None \<Rightarrow> t2
         | Some p \<Rightarrow>
             if map_of PRIORITIES (lower p) \<noteq> None then t2\<lparr>priority := lower p\<rparr> else t2)"

definition update_task ::
  "codec \<Rightarrow> int \<Rightarrow> string option \<Rightarrow> string option \<Rightarrow> string option \<Rightarrow> task_manager
     \<Rightarrow> exn + (task option \<times> task_manager)" where
  "update_task J tid ttl descr prio m =
     (case tasks J m of
        Inl e \<Rightarrow> Inl e
      | Inr (ts, m1) \<Rightarrow>
          (case find (\<lambda>t. task_id t = tid) ts of
             None \<Rightarrow> Inr (None, m1)
           | Some t \<Rightarrow>
               (let f = apply_update ttl descr prio
                in Inr (Some (f t),
                        save J (m1\<lparr>tasks_attr := Some (mutate_first tid f ts)\<rparr>)))))"

text \<open>The loop of \<open>get_stats\<close> over the dictionary \<open>by_priority\<close>.\<close>

definition by_priority_init :: "string \<rightharpoonup> int" where
  "by_priority_init = [''high'' \<mapsto> 0, ''medium'' \<mapsto> 0, ''low'' \<mapsto> 0]"

definition by_priority_step :: "task \<Rightarrow> (string \<rightharpoonup> int) \<Rightarrow> (string \<rightharpoonup> int)" where
  "by_priority_step t bp =
     (case bp (priority t) of
        None \<Rightarrow> bp
      | Some n \<Rightarrow> if \<not> completed t then bp(priority t \<mapsto> n + 1) else bp)"

definition stats_of :: "task list \<Rightarrow> (string \<times> int) list" where
  "stats_of ts =
     (let total = int (length ts);
          n_completed = int (length (filter (\<lambda>t. completed t) ts));
          pending = total - n_completed;
          by_priority = fold by_priority_step ts by_priority_init
      in [(''total'', total),
          (''completed'', n_completed),
          (''pending'', pending),
          (''high_priority'', the (by_priority ''high'')),
          (''medium_priority'', the (by_priority ''medium'')),
          (''low_priority'', the (by_priority ''low''))])"

definition get_stats ::
  "codec \<Rightarrow> task_manager \<Rightarrow> exn + ((string \<times> int) list \<times> task_manager)" where
  "get_stats J m =
     (case tasks J m of
        Inl e \<Rightarrow> Inl e
      | Inr (ts, m1) \<Rightarrow> Inr (stats_of ts, m1))"

definition clear_completed :: "codec \<Rightarrow> task_manager \<Rightarrow> exn + (int \<times> task_manager)" where
  "clear_completed J m =
     (case tasks J m of
        Inl e \<Rightarrow> Inl e
      | Inr (ts, m1) \<Rightarrow>
          (let original_count = int (length ts);
               kept = filter (\<lambda>t. \<not> completed t) ts;
               m2 = m1\<lparr>tasks_attr := Some kept\<rparr>;
               removed = original_count - int (length kept)
           in Inr (removed, if removed > 0 then save J m2 else m2)))"

section \<open>Sequences of calls\<close>

text \<open>A call of one of the public methods of \<open>TaskManager\<close>, with its arguments (and the
  clock reading where the method takes one), and what it returns.\<close>

datatype call =
    AddTask string string string string
  | GetTask int
  | ListTasks "string option" "string option"
  | CompleteTask string int
  | UncompleteTask int
  | DeleteTask int
  | UpdateTask int "string option" "string option" "string option"
  | GetStats
  | ClearCompleted

datatype result =
    RTask task
  | RFound "task option"
  | RTasks "task list"
  | RBool bool
  | RStats "(string \<times> int) list"
  | RCount int

definition returning ::
  "('a \<Rightarrow> result) \<Rightarrow> exn + ('a \<times> task_manager) \<Rightarrow> exn + (result \<times> task_manager)" where
  "returning c r = (case r of Inl e \<Rightarrow> Inl e | Inr (x, m) \<Rightarrow> Inr (c x, m))"

fun step :: "codec \<Rightarrow> call \<Rightarrow> task_manager \<Rightarrow> exn + (result \<times> task_manager)" where
  "step J (AddTask now ttl prio descr) m = returning RTask (add_task J now ttl prio descr m)"
| "step J (GetTask tid) m = returning RFound (get_task J tid m)"
| "step J (ListTasks status prio) m = returning RTasks (list_tasks J status prio m)"
| "step J (CompleteTask now tid) m = returning RFound (complete_task J now tid m)"
| "step J (UncompleteTask tid) m = returning RFound (uncomplete_task J tid m)"
| "step J (DeleteTask tid) m = returning RBool (delete_task J tid m)"
| "step J (UpdateTask tid ttl descr prio) m =
     returning RFound (update_task J tid ttl descr prio m)"
| "step J GetStats m = returning RStats (get_stats J m)"
| "step J ClearCompleted m = returning RCount (clear_completed J m)"

text \<open>A sequence of calls stops at the first exception; the results are kept in order.\<close>

fun run :: "codec \<Rightarrow> call list \<Rightarrow> task_manager \<Rightarrow> exn + (result list \<times> task_manager)" where
  "run J [] m = Inr ([], m)"
| "run J (c # cs) m =
     (case step J c m of
        Inl e \<Rightarrow> Inl e
      | Inr (r, m1) \<Rightarrow>
          (case run J cs m1 of Inl e \<Rightarrow> Inl e | Inr (rs, m2) \<Rightarrow> Inr (r # rs, m2)))"

text \<open>A manager on a storage with no data file yet: its collection is empty.\<close>

definition fresh :: task_manager where
  "fresh = \<lparr>tasks_attr = None, storage = \<lparr>data_file = Absent, saves = 0\<rparr>\<rparr>"

text \<open>The ids that the \<open>add_task\<close> calls of a sequence returned, in order.\<close>

fun added_ids :: "result list \<Rightarrow> int list" where
  "added_ids [] = []"
| "added_ids (RTask t # rs) = task_id t # added_ids rs"
| "added_ids (r # rs) = added_ids rs"

section \<open>Sample data\<close>

text \<open>A task as \<open>add_task\<close> builds it, and a completed one.\<close>

definition sample_task :: task where
  "sample_task =
     \<lparr>task_id = 1, title = ''Test'', description = [], priority = ''high'',
      completed = False, created_at = ''2024-01-01T09:00:00'', completed_at = None\<rparr>"

definition done_task :: task where
  "done_task =
     \<lparr>task_id = 2, title = ''Done'', description = [], priority = ''low'',
      completed = True, created_at = ''2024-01-01T09:30:00'',
      completed_at = Some ''2024-01-02T10:00:00''\<rparr>"

text \<open>The collections of the examples of the specification.\<close>

definition listed_example :: "task list" where
  "listed_example =
     [sample_task\<lparr>task_id := 1, priority := ''low''\<rparr>,
      sample_task\<lparr>task_id := 2, priority := ''high''\<rparr>,
      sample_task\<lparr>task_id := 3, priority := ''high''\<rparr>]"

definition stats_example :: "task list" where
  "stats_example =
     [sample_task\<lparr>task_id := 1, priority := ''high''\<rparr>,
      done_task\<lparr>task_id := 2, priority := ''high''\<rparr>,
      sample_task\<lparr>task_id := 3, priority := ''low''\<rparr>]"

section \<open>The claims' own words\<close>

text \<open>The rank of a priority: high is 3, medium is 2, low is 1; the code gives every
  other string the rank 2.\<close>

definition rank :: "string \<Rightarrow> int" where
  "rank p = (if p = ''high'' then 3 else if p = ''low'' then 1 else 2)"

text \<open>A task comes before another in a listing: higher rank first, then smaller id.\<close>

definition listed_before :: "task \<Rightarrow> task \<Rightarrow> bool" where
  "listed_before a b =
     (rank (priority a) > rank (priority b)
      \<or> (rank (priority a) = rank (priority b) \<and> task_id a \<le> task_id b))"

text \<open>What the two filters of a listing keep.\<close>

definition kept_by :: "string option \<Rightarrow> string option \<Rightarrow> task \<Rightarrow> bool" where
  "kept_by status prio t =
     ((status = Some ''completed'' \<longrightarrow> completed t)
      \<and> (status = Some ''pending'' \<longrightarrow> \<not> completed t)
      \<and> (case prio of
           None \<Rightarrow> True
         | Some p \<Rightarrow> lower p \<in> {''high'', ''medium'', ''low''} \<longrightarrow> priority t = lower p))"

text \<open>The number of tasks of a priority that are not completed.\<close>

definition pending_of :: "string \<Rightarrow> task list \<Rightarrow> int" where
  "pending_of p ts = int (length (filter (\<lambda>t. priority t = p \<and> \<not> completed t) ts))"

text \<open>A manager that has loaded a collection of two tasks and saved it once.\<close>

definition sample_manager :: task_manager where
  "sample_manager =
     \<lparr>tasks_attr = Some [sample_task, done_task],
      storage = \<lparr>data_file = Text (json_dumps [sample_task, done_task]), saves = 1\<rparr>\<rparr>"

section \<open>Invariants and sequences of calls\<close>

text \<open>\<open>completed\<close> is true exactly when \<open>completed_at\<close> is not \<open>None\<close>.\<close>

definition consistent :: "task \<Rightarrow> bool" where
  "consistent t = (completed t \<longleftrightarrow> completed_at t \<noteq> None)"

definition valid_priority :: "task \<Rightarrow> bool" where
  "valid_priority t = (priority t = ''high'' \<or> priority t = ''medium'' \<or> priority t = ''low'')"

text \<open>The collection of the manager loads, and each of its tasks satisfies \<open>P\<close>.\<close>

definition all_tasks :: "codec \<Rightarrow> (task \<Rightarrow> bool) \<Rightarrow> task_manager \<Rightarrow> bool" where
  "all_tasks J P m = (case tasks J m of Inl e \<Rightarrow> False | Inr (ts, m1) \<Rightarrow> list_all P ts)"

text \<open>
  What \<open>get_task\<close> finds: used below to say that a task is still in the collection.
\<close>

definition has_task :: "codec \<Rightarrow> int \<Rightarrow> task_manager \<Rightarrow> bool" where
  "has_task J tid m = (case get_task J tid m of Inr (Some t, m1) \<Rightarrow> True | _ \<Rightarrow> False)"

text \<open>
  Along a sequence of calls, whenever \<open>add_task\<close> is called, the task that the previous
  call of \<open>add_task\<close> created (\<open>prev\<close> is its id, \<open>None\<close> before the first one) is still in
  the collection.
\<close>

fun previous_kept :: "codec \<Rightarrow> int option \<Rightarrow> call list \<Rightarrow> task_manager \<Rightarrow> bool" where
  "previous_kept J prev [] m = True"
| "previous_kept J prev (c # cs) m =
     (case step J c m of
        Inl e \<Rightarrow> True
      | Inr (r, m2) \<Rightarrow>
          (case r of
             RTask t \<Rightarrow>
               (case prev of None \<Rightarrow> True | Some k \<Rightarrow> has_task J k m)
               \<and> previous_kept J (Some (task_id t)) cs m2
           | _ \<Rightarrow> previous_kept J prev cs m2))"

text \<open>
  The collection after a call, as a function of the collection before it; the lemma
  \<open>step_effect\<close> shows that \<open>step\<close> leaves exactly this collection.
\<close>

fun effect :: "call \<Rightarrow> task list \<Rightarrow> task list" where
  "effect (AddTask now ttl prio descr) ts =
     ts @ [\<lparr>task_id = get_next_id ts, title = ttl, description = descr,
             priority = (if map_of PRIORITIES (lower prio) = None then ''medium''
                         else lower prio),
             completed = False, created_at = now, completed_at = None\<rparr>]"
| "effect (CompleteTask now tid) ts =
     mutate_first tid (\<lambda>t. t\<lparr>completed := True, completed_at := Some now\<rparr>) ts"
| "effect (UncompleteTask tid) ts =
     mutate_first tid (\<lambda>t. t\<lparr>completed := False, completed_at := None\<rparr>) ts"
| "effect (DeleteTask tid) ts = (case pop_first tid ts of None \<Rightarrow> ts | Some ts' \<Rightarrow> ts')"
| "effect (UpdateTask tid ttl descr prio) ts =
     mutate_first tid (apply_update ttl descr prio) ts"
| "effect ClearCompleted ts = filter (\<lambda>t. \<not> completed t) ts"
| "effect c ts = ts"

section \<open>The collection of a manager\<close>

lemma tasks_Some: "tasks_attr m = Some ts \<Longrightarrow> tasks J m = Inr (ts, m)"
  by (simp add: tasks_def)

lemma tasks_result:
  assumes "tasks J m = Inr (ts, m1)"
  shows "tasks_attr m1 = Some ts" and "storage m1 = storage m"
    and "tasks J m1 = Inr (ts, m1)"
  using assms by (auto simp: tasks_def split: option.splits sum.splits document.splits)

lemma tasks_fresh: "tasks J fresh = Inr ([], fresh\<lparr>tasks_attr := Some []\<rparr>)"
  by (simp add: tasks_def fresh_def load_tasks_def)

lemma tasks_sample_manager:
  "tasks J sample_manager = Inr ([sample_task, done_task], sample_manager)"
  by (simp add: tasks_def sample_manager_def)

section \<open>The json module reads what it wrote\<close>

text \<open>
  The text that \<open>json_dumps\<close> writes for a collection is read back by \<open>json_loads\<close> as
  that collection. The proof follows the reader: the scanner turns the text of a task
  into \<open>task_tokens\<close>, the parser turns these into \<open>task_json\<close>, and \<open>as_task\<close> finds the
  task in it.
\<close>

subsection \<open>Digits\<close>

lemma digits_lt: "d \<in> set (digits n) \<Longrightarrow> d < 10"
  by (induction n rule: digits.induct) (subst (asm) digits.simps, auto split: if_splits)

lemma foldl_digits_snoc:
  "foldl (\<lambda>a d. 10 * a + d) v (ds @ [d]) = 10 * foldl (\<lambda>a d. 10 * a + d) v ds + d"
  by simp

lemma digits_value: "foldl (\<lambda>a d. 10 * a + d) 0 (digits n) = n"
proof (induction n rule: digits.induct)
  case (1 n)
  show ?case
  proof (cases "n < 10")
    case True
    then show ?thesis by (subst digits.simps) simp
  next
    case False
    then show ?thesis
      using 1 by (subst digits.simps) simp
  qed
qed

lemma digits_not_Nil: "digits n \<noteq> []"
  by (subst digits.simps) simp

lemma hd_digits: "0 < n \<Longrightarrow> hd (digits n) \<noteq> 0"
proof (induction n rule: digits.induct)
  case (1 n)
  show ?case
  proof (cases "n < 10")
    case True
    then show ?thesis using 1(2) by (subst digits.simps) simp
  next
    case False
    then have "0 < n div 10" by simp
    then show ?thesis
      using 1(1) False digits_not_Nil [of "n div 10"]
      by (subst digits.simps) (simp add: hd_append)
  qed
qed

lemma length_digits: "n < 10 ^ k \<Longrightarrow> 0 < k \<Longrightarrow> length (digits n) \<le> k"
proof (induction n arbitrary: k rule: digits.induct)
  case (1 n)
  show ?case
  proof (cases "n < 10")
    case True
    then show ?thesis using 1(3) by (subst digits.simps) simp
  next
    case False
    then obtain j where k: "k = Suc j"
      using 1(3) by (cases k) auto
    have "0 < j"
      using False 1(2) k by (cases j) auto
    moreover have "n div 10 < 10 ^ j"
      using 1(2) k by (simp add: less_mult_imp_div_less mult.commute)
    ultimately have "length (digits (n div 10)) \<le> j"
      using 1(1) False by simp
    then show ?thesis
      using False k by (subst digits.simps) simp
  qed
qed

subsection \<open>Characters\<close>

lemma digit_val_digit_char: "d < 10 \<Longrightarrow> digit_val (digit_char d) = Some d"
  by (simp add: digit_val_def digit_char_def)

lemma hex_val_hex_char: "v < 16 \<Longrightarrow> hex_val (hex_char v) = Some v"
  by (simp add: hex_val_def hex_char_def)

lemma digit_val_comma: "digit_val (CHR '','') = None"
  by (simp add: digit_val_def)

subsection \<open>Reading what was written: numbers\<close>

lemma scan_digits:
  "\<forall>d\<in>set ds. d < 10 \<Longrightarrow>
   scan (Digits neg v k) (map digit_char ds @ rest)
     = scan (Digits neg (foldl (\<lambda>a d. 10 * a + d) v ds) (k + length ds)) rest"
  by (induction ds arbitrary: v k) (simp_all add: digit_val_digit_char)

lemma scan_after_comma:
  "scan (Digits neg v k) (CHR '','' # rest) = int_token neg v k # Comma # scan Idle rest"
  by (simp add: digit_val_def after_def idle_step_def)

lemma scan_nat:
  assumes "scan_step st (digit_char (hd (digits n))) = ([], Digits neg (hd (digits n)) 1)"
    and "0 < n"
  shows "scan st (map digit_char (digits n) @ CHR '','' # rest)
           = int_token neg n (length (digits n)) # Comma # scan Idle rest"
proof -
  obtain d ds where ds: "digits n = d # ds"
    using digits_not_Nil [of n] by (cases "digits n") auto
  have lt: "\<forall>x\<in>set ds. x < 10"
    using digits_lt [of _ n] ds by simp
  have v: "foldl (\<lambda>a d. 10 * a + d) d ds = n"
    using digits_value [of n] ds by simp
  have "scan st (map digit_char (digits n) @ CHR '','' # rest)
          = scan (Digits neg d 1) (map digit_char ds @ CHR '','' # rest)"
    using assms(1) ds by simp
  also have "\<dots> = scan (Digits neg n (1 + length ds)) (CHR '','' # rest)"
    by (simp only: scan_digits [OF lt] v)
  also have "\<dots> = int_token neg n (1 + length ds) # Comma # scan Idle rest"
    by (rule scan_after_comma)
  finally show ?thesis
    using ds by simp
qed

lemma idle_step_digit_val:
  assumes "digit_val c = Some d"
  shows "idle_step c = (if d = 0 then ([], Zero) else ([], Digits False d 1))"
proof -
  have r: "48 \<le> (of_char c :: nat)" "(of_char c :: nat) \<le> 57"
    using assms by (simp_all add: digit_val_def Let_def split: if_splits)
  have "c \<notin> {CHR '' '', CHR 0x09, CHR 0x0A, CHR 0x0D, CHR ''['', CHR '']'', CHR ''{'',
              CHR ''}'', CHR '','', CHR '':'', CHR 0x22, CHR ''-'', CHR ''t'', CHR ''f'',
              CHR ''n'', CHR ''N'', CHR ''I''}"
    using r by auto
  then show ?thesis
    using assms by (simp add: idle_step_def)
qed

lemma idle_step_digit:
  "0 < d \<Longrightarrow> d < 10 \<Longrightarrow> idle_step (digit_char d) = ([], Digits False d 1)"
  using idle_step_digit_val [OF digit_val_digit_char, of d] by simp

lemma minus_step_digit:
  "0 < d \<Longrightarrow> d < 10 \<Longrightarrow> scan_step Minus (digit_char d) = ([], Digits True d 1)"
  by (simp add: digit_val_digit_char)

lemma scan_zero_comma: "scan Zero (CHR '','' # rest) = TInt 0 # Comma # scan Idle rest"
  by (simp add: digit_val_def after_def idle_step_def)

lemma digits_0: "digits 0 = [0]"
  by (subst digits.simps) simp

lemma hd_digits_range: "0 < n \<Longrightarrow> 0 < hd (digits n) \<and> hd (digits n) < 10"
  using hd_digits [of n] digits_lt [of "hd (digits n)" n] digits_not_Nil [of n] by auto

lemma scan_pos:
  assumes "0 < n" and "length (digits n) \<le> max_str_digits"
  shows "scan Idle (map digit_char (digits n) @ CHR '','' # rest)
           = TInt (int n) # Comma # scan Idle rest"
proof -
  have "scan_step Idle (digit_char (hd (digits n))) = ([], Digits False (hd (digits n)) 1)"
    using idle_step_digit hd_digits_range [OF assms(1)] by simp
  from scan_nat [OF this assms(1)] show ?thesis
    using assms(2) by (simp add: int_token_def)
qed

lemma scan_neg:
  assumes "0 < n" and "length (digits n) \<le> max_str_digits"
  shows "scan Idle (CHR ''-'' # map digit_char (digits n) @ CHR '','' # rest)
           = TInt (- int n) # Comma # scan Idle rest"
proof -
  have "scan_step Minus (digit_char (hd (digits n))) = ([], Digits True (hd (digits n)) 1)"
    using minus_step_digit hd_digits_range [OF assms(1)] by blast
  from scan_nat [OF this assms(1)]
  have "scan Minus (map digit_char (digits n) @ CHR '','' # rest)
          = TInt (- int n) # Comma # scan Idle rest"
    using assms(2) by (simp add: int_token_def)
  moreover have "scan Idle (CHR ''-'' # cs) = scan Minus cs" for cs
    by (simp add: idle_step_def)
  ultimately show ?thesis by simp
qed

lemma scan_0: "scan Idle (map digit_char (digits 0) @ CHR '','' # rest)
           = TInt 0 # Comma # scan Idle rest"
proof -
  have "idle_step (digit_char 0) = ([], Zero)"
    using idle_step_digit_val [OF digit_val_digit_char, of 0] by simp
  then have "scan Idle (digit_char 0 # CHR '','' # rest) = scan Zero (CHR '','' # rest)"
    by simp
  then show ?thesis
    by (simp only: digits_0 list.map append_Cons append_Nil scan_zero_comma)
qed

lemma scan_int:
  assumes "\<bar>i\<bar> < 10 ^ max_str_digits"
  shows "scan Idle (encode_int i @ CHR '','' # rest) = TInt i # Comma # scan Idle rest"
proof -
  have "int (nat \<bar>i\<bar>) < int (10 ^ max_str_digits)"
    using assms by simp
  then have "nat \<bar>i\<bar> < 10 ^ max_str_digits"
    by (simp only: of_nat_less_iff)
  then have len: "length (digits (nat \<bar>i\<bar>)) \<le> max_str_digits"
    by (rule length_digits) (simp add: max_str_digits_def)
  consider "i = 0" | "0 < i" | "i < 0" by linarith
  then show ?thesis
  proof cases
    case 1
    then show ?thesis
      using scan_0 [of rest] by (simp add: encode_int_def)
  next
    case 2
    then have "nat \<bar>i\<bar> = nat i" "int (nat i) = i" "0 < nat i" by simp_all
    then show ?thesis
      using 2 len scan_pos [of "nat i" rest] by (simp add: encode_int_def)
  next
    case 3
    then have "nat \<bar>i\<bar> = nat (- i)" "- int (nat (- i)) = i" "0 < nat (- i)" by simp_all
    then show ?thesis
      using 3 len scan_neg [of "nat (- i)" rest] by (simp add: encode_int_def)
  qed
qed

subsection \<open>Reading what was written: strings\<close>

lemma scan_escape_char:
  "scan (InString acc w) (escape_char c @ rest) = scan (InString (c # acc) w) rest"
proof -
  let ?special = "{CHR 0x22, CHR 0x5C, CHR 0x0A, CHR 0x0D, CHR 0x09, CHR 0x08, CHR 0x0C}"
  let ?n = "of_char c :: nat"
  consider (special) "c \<in> ?special"
    | (plain) "c \<notin> ?special" "32 \<le> ?n" "?n \<le> 126"
    | (coded) "c \<notin> ?special" "\<not> (32 \<le> ?n \<and> ?n \<le> 126)"
    by blast
  then show ?thesis
  proof cases
    case special
    then show ?thesis
      by (auto simp: escape_char_def unescape_def)
  next
    case plain
    then have "escape_char c = [c]"
      by (simp add: escape_char_def)
    then show ?thesis
      using plain by simp
  next
    case coded
    let ?h = "?n div 16" and ?l = "?n mod 16"
    have e: "escape_char c =
        [CHR 0x5C, CHR ''u'', CHR ''0'', CHR ''0'', hex_char ?h, hex_char ?l]"
      using coded by (simp add: escape_char_def Let_def)
    have small: "?n < 256" by simp
    then have h: "hex_val (hex_char ?h) = Some ?h" "hex_val (hex_char ?l) = Some ?l"
      by (simp_all add: hex_val_hex_char less_mult_imp_div_less)
    have z: "hex_val (CHR ''0'') = Some 0" "unescape (CHR ''u'') = None"
      by (simp_all add: hex_val_def unescape_def)
    have again: "char_of (16 * ?h + ?l) = c"
      by simp
    have lt: "16 * ?h + ?l < 256"
      using small by simp
    show ?thesis
      unfolding e using lt by (simp add: h z again del: mult_div_mod_eq div_mult_mod_eq)
  qed
qed

lemma scan_string_body:
  "scan (InString acc False) (concat (map escape_char s) @ CHR 0x22 # rest)
     = TStr (Some (rev acc @ s)) # scan Idle rest"
proof (induction s arbitrary: acc)
  case Nil
  then show ?case by simp
next
  case (Cons c s)
  have "scan (InString acc False) (concat (map escape_char (c # s)) @ CHR 0x22 # rest)
          = scan (InString acc False)
              (escape_char c @ (concat (map escape_char s) @ CHR 0x22 # rest))"
    by simp
  also have "\<dots> = scan (InString (c # acc) False) (concat (map escape_char s) @ CHR 0x22 # rest)"
    by (rule scan_escape_char)
  also have "\<dots> = TStr (Some (rev (c # acc) @ s)) # scan Idle rest"
    by (rule Cons.IH)
  finally show ?case by simp
qed

lemma scan_string: "scan Idle (encode_string s @ rest) = TStr (Some s) # scan Idle rest"
proof -
  have "scan Idle (encode_string s @ rest)
          = scan (InString [] False) (concat (map escape_char s) @ CHR 0x22 # rest)"
    by (simp add: encode_string_def idle_step_def)
  then show ?thesis
    by (simp only: scan_string_body rev.simps append_Nil)
qed

subsection \<open>Reading what was written: tasks\<close>

lemma scan_member:
  "scan Idle (object_member k v @ rest) = TStr (Some k) # Colon # scan Idle (v @ rest)"
proof -
  have "scan Idle (object_member k v @ rest) = scan Idle (encode_string k @ CHR '':'' # CHR '' '' # v @ rest)"
    by (simp add: object_member_def idle_step_def)
  also have "\<dots> = TStr (Some k) # scan Idle (CHR '':'' # CHR '' '' # v @ rest)"
    by (rule scan_string)
  also have "\<dots> = TStr (Some k) # Colon # scan Idle (v @ rest)"
    by (simp add: idle_step_def)
  finally show ?thesis .
qed

lemma scan_comma_line:
  "scan Idle (CHR '','' # CHR 0x0A # rest) = Comma # scan Idle rest"
  by (simp add: idle_step_def)

lemma scan_string_comma:
  "scan Idle (encode_string s @ CHR '','' # CHR 0x0A # rest)
     = TStr (Some s) # Comma # scan Idle rest"
  by (simp only: scan_string scan_comma_line)

lemma scan_int_comma:
  "\<bar>i\<bar> < 10 ^ max_str_digits \<Longrightarrow>
   scan Idle (encode_int i @ CHR '','' # CHR 0x0A # rest) = TInt i # Comma # scan Idle rest"
  by (simp add: scan_int idle_step_def)

lemma scan_bool_comma:
  "scan Idle ((if b then ''true'' else ''false'') @ CHR '','' # CHR 0x0A # rest)
     = (if b then TTrue else TFalse) # Comma # scan Idle rest"
  by (cases b) (simp_all add: idle_step_def)

lemma scan_last_value:
  "scan Idle ((case v of None \<Rightarrow> ''null'' | Some s \<Rightarrow> encode_string s)
              @ CHR 0x0A # CHR '' '' # CHR '' '' # CHR ''}'' # rest)
     = (case v of None \<Rightarrow> TNull | Some s \<Rightarrow> TStr (Some s)) # RBrace # scan Idle rest"
proof (cases v)
  case None
  then show ?thesis by (simp add: idle_step_def)
next
  case (Some s)
  have "scan Idle (encode_string s @ CHR 0x0A # CHR '' '' # CHR '' '' # CHR ''}'' # rest)
          = TStr (Some s) # scan Idle (CHR 0x0A # CHR '' '' # CHR '' '' # CHR ''}'' # rest)"
    by (rule scan_string)
  then show ?thesis
    using Some by (simp add: idle_step_def)
qed

lemma scan_open_brace: "scan Idle (CHR ''{'' # CHR 0x0A # rest) = LBrace # scan Idle rest"
  by (simp add: idle_step_def)

lemma scan_task:
  assumes "\<bar>task_id t\<bar> < 10 ^ max_str_digits"
  shows "scan Idle (encode_task t @ rest) = task_tokens t @ scan Idle rest"
  unfolding encode_task_def task_tokens_def
  by (simp only: append_assoc append_Cons append_Nil scan_open_brace scan_member
      scan_int_comma [OF assms] scan_string_comma scan_bool_comma scan_last_value)

lemma items_tokens_Cons: "items_tokens (t # ts) = LBrace # tl (items_tokens (t # ts))"
  by (cases ts) (simp_all add: task_tokens_def)

lemma scan_items:
  "well_formed ts \<Longrightarrow> ts \<noteq> [] \<Longrightarrow>
   scan Idle (encode_items ts @ rest) = items_tokens ts @ scan Idle rest"
proof (induction ts arbitrary: rest rule: encode_items.induct)
  case 1
  then show ?case by simp
next
  case (2 t)
  then show ?case
    by (simp add: well_formed_def scan_task)
next
  case (3 t u ts)
  have t: "\<bar>task_id t\<bar> < 10 ^ max_str_digits" and rest: "well_formed (u # ts)"
    using "3.prems"(1) by (simp_all add: well_formed_def)
  have "scan Idle (encode_items (t # u # ts) @ rest)
          = scan Idle (encode_task t
                      @ CHR '','' # CHR 0x0A # CHR '' '' # CHR '' ''
                        # encode_items (u # ts) @ rest)"
    by simp
  also have "\<dots> = task_tokens t
      @ scan Idle (CHR '','' # CHR 0x0A # CHR '' '' # CHR '' '' # encode_items (u # ts) @ rest)"
    by (rule scan_task [OF t])
  also have "\<dots> = task_tokens t @ Comma # scan Idle (encode_items (u # ts) @ rest)"
    by (simp add: idle_step_def)
  also have "\<dots> = task_tokens t @ Comma # items_tokens (u # ts) @ scan Idle rest"
    using "3.IH" [OF rest] by simp
  finally show ?case by simp
qed

lemma scan_dumps:
  assumes "well_formed ts"
  shows "scan Idle (json_dumps ts)
           = (if ts = [] then [LBracket, RBracket]
              else LBracket # items_tokens ts @ [RBracket])"
proof (cases "ts = []")
  case True
  then show ?thesis by (simp add: json_dumps_def idle_step_def)
next
  case False
  have "scan Idle (json_dumps ts)
          = LBracket # scan Idle (encode_items ts @ [CHR 0x0A, CHR '']''])"
    using False by (simp add: json_dumps_def idle_step_def)
  also have "\<dots> = LBracket # items_tokens ts @ scan Idle [CHR 0x0A, CHR '']'']"
    by (simp only: scan_items [OF assms False])
  also have "\<dots> = LBracket # items_tokens ts @ [RBracket]"
    by (simp add: idle_step_def)
  finally show ?thesis using False by simp
qed

subsection \<open>Reading what was written: tokens to a value\<close>

lemma parse_task:
  assumes "2 \<le> d" and "md = Value \<or> md = ValueOrEnd"
  shows "parse d md [InArray xs] (task_tokens t @ toks)
           = parse d Next [InArray (task_json t # xs)] toks"
proof -
  have v: "advance d md [InArray xs] LBrace = Inr (KeyOrEnd, [InObject [], InArray xs])"
    using assms by auto
  have c: "(if completed t then TTrue else TFalse) = TTrue \<and> completed t
         \<or> (if completed t then TTrue else TFalse) = TFalse \<and> \<not> completed t"
    by simp
  show ?thesis
    using c by (cases "completed_at t") (auto simp: task_tokens_def task_json_def v)
qed

lemma parse_items:
  assumes "2 \<le> d"
  shows "ts \<noteq> [] \<Longrightarrow> md = Value \<or> md = ValueOrEnd \<Longrightarrow>
   parse d md [InArray xs] (items_tokens ts @ [RBracket])
     = Inr (JArr (rev xs @ map task_json ts))"
proof (induction ts arbitrary: xs md rule: items_tokens.induct)
  case 1
  then show ?case by simp
next
  case (2 t)
  then show ?case
    by (simp add: parse_task [OF assms])
next
  case (3 t u ts)
  have "parse d md [InArray xs] (items_tokens (t # u # ts) @ [RBracket])
          = parse d md [InArray xs]
              (task_tokens t @ Comma # items_tokens (u # ts) @ [RBracket])"
    by simp
  also have "\<dots> = parse d Next [InArray (task_json t # xs)]
                        (Comma # items_tokens (u # ts) @ [RBracket])"
    by (rule parse_task [OF assms "3.prems"(2)])
  also have "\<dots> = parse d Value [InArray (task_json t # xs)]
                        (items_tokens (u # ts) @ [RBracket])"
    by simp
  also have "\<dots> = Inr (JArr (rev (task_json t # xs) @ map task_json (u # ts)))"
    by (rule "3.IH") simp_all
  finally show ?case by simp
qed

lemma as_task_task_json: "as_task (task_json t) = Some t"
  by (cases "completed_at t")
     (simp_all add: as_task_def task_json_def task_keys_def int_of_def str_of_def
        bool_of_def str_or_null_of_def)

lemma those_as_task: "those (map (as_task \<circ> task_json) ts) = Some ts"
  by (induction ts) (simp_all add: as_task_task_json)

lemma json_round_trip:
  assumes "well_formed ts" and "2 \<le> d"
  shows "json_loads d (json_dumps ts) = Inr (Tasks ts)"
proof (cases "ts = []")
  case True
  have "scan Idle (json_dumps []) = [LBracket, RBracket]"
    by (simp add: json_dumps_def idle_step_def)
  then show ?thesis
    using True assms(2) by (simp add: json_loads_def json_value_def document_of_def)
next
  case False
  have "parse d Value [] (LBracket # items_tokens ts @ [RBracket])
          = parse d ValueOrEnd [InArray []] (items_tokens ts @ [RBracket])"
    using assms(2) by simp
  also have "\<dots> = Inr (JArr (rev [] @ map task_json ts))"
    by (rule parse_items [OF assms(2) False]) simp
  finally have "parse d Value [] (LBracket # items_tokens ts @ [RBracket])
                  = Inr (JArr (map task_json ts))"
    by simp
  then have "json_value d (json_dumps ts) = Inr (JArr (map task_json ts))"
    using False by (simp only: json_value_def scan_dumps [OF assms(1)] if_False)
  then show ?thesis
    by (simp add: json_loads_def document_of_def those_as_task)
qed

section \<open>Loading and saving\<close>

text \<open>
  \<open>load_tasks\<close>, case by case. It returns the empty list when the file is absent, when
  it cannot be opened and when \<open>json.load\<close> raises \<open>JSONDecodeError\<close>; it returns what
  \<open>json.load\<close> returns, a list of task records or not; every other exception of
  \<open>json.load\<close> goes through.
\<close>

lemma load_tasks_cases:
  "load_tasks J st =
     (case data_file st of
        Absent \<Rightarrow> Inr (Tasks [])
      | Unreadable \<Rightarrow> Inr (Tasks [])
      | Undecodable \<Rightarrow> Inl UnicodeDecodeError
      | Text s \<Rightarrow>
          (case loads J s of
             Inr d \<Rightarrow> Inr d
           | Inl e \<Rightarrow> if e = JSONDecodeError \<or> e = OSError then Inr (Tasks []) else Inl e))"
  by (cases "data_file st")
     (simp_all add: load_tasks_def json_load_def caught_def split: sum.splits)

text \<open>
  C2 (the code at the failing input). A data file whose bytes are not valid UTF-8 exists
  and opens; \<open>json.load\<close> raises \<open>UnicodeDecodeError\<close>, which the handler
  \<open>except (json.JSONDecodeError, IOError)\<close> does not catch, so \<open>load_tasks\<close> raises
  where the claim says it returns the empty sequence.
\<close>

theorem load_tasks_raises_on_undecodable:
  "load_tasks (json_codec 1000) \<lparr>data_file = Undecodable, saves = 0\<rparr>
     = Inl UnicodeDecodeError"
  by (simp add: load_tasks_def json_load_def caught_def)

text \<open>
  What \<open>json.load\<close> does on three texts that no collection is written as: \<open>null\<close> is a
  document that is not a list of task records; an integer of 4301 digits raises
  \<open>ValueError\<close>; a third nested list in an interpreter that allows two raises
  \<open>RecursionError\<close>. The handler of \<open>load_tasks\<close> catches neither exception.
\<close>

lemma json_loads_null: "json_loads d ''null'' = Inr Other"
  by (simp add: json_loads_def json_value_def idle_step_def digit_val_def Let_def
      document_of_def)

lemma scan_many_digits:
  "\<exists>v'. scan (Digits neg v k) (replicate n (CHR ''1'')) = [int_token neg v' (k + n)]"
proof (induction n arbitrary: v k)
  case 0
  show ?case by auto
next
  case (Suc n)
  have "digit_val (CHR ''1'') = Some 1"
    by (simp add: digit_val_def Let_def)
  then have "scan (Digits neg v k) (replicate (Suc n) (CHR ''1''))
           = scan (Digits neg (10 * v + 1) (Suc k)) (replicate n (CHR ''1''))"
    by simp
  with Suc [of "10 * v + 1" "Suc k"] show ?case by simp
qed

lemma json_loads_long_integer:
  "json_loads d (replicate 4301 (CHR ''1'')) = Inl ValueError"
proof -
  have one: "digit_val (CHR ''1'') = Some 1"
    by (simp add: digit_val_def Let_def)
  have "replicate 4301 (CHR ''1'') = CHR ''1'' # replicate 4300 (CHR ''1'')"
    by (simp add: replicate_Suc [symmetric] del: replicate_Suc)
  then have "scan Idle (replicate 4301 (CHR ''1''))
           = scan (Digits False 1 1) (replicate 4300 (CHR ''1''))"
    using one by (simp add: idle_step_def)
  moreover obtain v' where
    "scan (Digits False 1 1) (replicate 4300 (CHR ''1'')) = [int_token False v' (1 + 4300)]"
    using scan_many_digits by blast
  ultimately have "scan Idle (replicate 4301 (CHR ''1'')) = [TBig]"
    by (simp add: int_token_def max_str_digits_def)
  then show ?thesis
    by (simp add: json_loads_def json_value_def)
qed

lemma json_loads_nested: "json_loads 2 ''[[['' = Inl RecursionError"
  by (simp add: json_loads_def json_value_def idle_step_def digit_val_def Let_def)

lemma load_tasks_uncaught:
  "load_tasks (json_codec d) \<lparr>data_file = Text (replicate 4301 (CHR ''1'')), saves = n\<rparr>
     = Inl ValueError"
  "load_tasks (json_codec 2) \<lparr>data_file = Text ''[[['', saves = n\<rparr> = Inl RecursionError"
  "load_tasks (json_codec d) \<lparr>data_file = Text ''null'', saves = n\<rparr> = Inr Other"
  by (simp_all add: load_tasks_cases json_codec_def json_loads_long_integer
      json_loads_nested json_loads_null)

text \<open>
  C8. Round trip. Let \<open>T\<close> be a well-formed collection: a list of task records whose ids
  are integers that the interpreter converts to and from text. On a storage that uses
  the \<open>json\<close> module, in an interpreter that allows two levels of nesting or more,
  \<open>save_tasks\<close> followed by \<open>load_tasks\<close> returns \<open>T\<close>, whatever the data file was before;
  the file then holds the text that \<open>json.dump\<close> writes for \<open>T\<close>.
\<close>

theorem save_load_round_trip:
  assumes "well_formed T" and "2 \<le> d"
  shows "load_tasks (json_codec d) (save_tasks (json_codec d) T st) = Inr (Tasks T)
       \<and> data_file (save_tasks (json_codec d) T st) = Text (json_dumps T)"
  using json_round_trip [OF assms]
  by (simp add: load_tasks_def save_tasks_def json_load_def json_codec_def)

theorem save_load_round_trip_witness:
  "well_formed [sample_task, done_task]
   \<and> (2 :: nat) \<le> 1000
   \<and> load_tasks (json_codec 1000)
        (save_tasks (json_codec 1000) [sample_task, done_task]
           \<lparr>data_file = Text ''not json'', saves = 0\<rparr>)
      = Inr (Tasks [sample_task, done_task])"
proof -
  have "(10 :: int) ^ 1 \<le> 10 ^ max_str_digits"
    by (rule power_increasing) (simp_all add: max_str_digits_def)
  then have small: "(1 :: int) < 10 ^ max_str_digits" "(2 :: int) < 10 ^ max_str_digits"
    by simp_all
  have w: "well_formed [sample_task, done_task]"
    by (simp add: well_formed_def small sample_task_def done_task_def)
  have d: "(2 :: nat) \<le> 1000"
    by simp
  show ?thesis
    using w d
      save_load_round_trip [OF w d, of "\<lparr>data_file = Text ''not json'', saves = 0\<rparr>"]
    by simp
qed

section \<open>An id that is not in the collection\<close>

lemma find_absent:
  "tid \<notin> task_id ` set ts \<Longrightarrow> find (\<lambda>t. task_id t = tid) ts = None"
  by (auto simp: find_None_iff)

lemma pop_first_absent: "tid \<notin> task_id ` set ts \<Longrightarrow> pop_first tid ts = None"
  by (induction ts) auto

text \<open>
  C9. Let the collection of the manager be \<open>ts\<close> (\<open>m1\<close> is the manager once it has
  loaded it) and let no task of \<open>ts\<close> have the id \<open>tid\<close>. Then \<open>complete_task\<close>,
  \<open>uncomplete_task\<close> and \<open>update_task\<close> return \<open>None\<close> and \<open>delete_task\<close> returns
  \<open>False\<close>, none raises, the collection is still \<open>ts\<close>, and the storage (the data file
  and the number of saves) is what it was.
\<close>

theorem not_found_is_a_result:
  assumes "tasks J m = Inr (ts, m1)" and "tid \<notin> task_id ` set ts"
  shows "complete_task J now tid m = Inr (None, m1)
       \<and> uncomplete_task J tid m = Inr (None, m1)
       \<and> update_task J tid ttl descr prio m = Inr (None, m1)
       \<and> delete_task J tid m = Inr (False, m1)
       \<and> tasks J m1 = Inr (ts, m1)
       \<and> storage m1 = storage m"
  using assms(1) find_absent [OF assms(2)] pop_first_absent [OF assms(2)]
    tasks_result [OF assms(1)]
  by (simp add: complete_task_def uncomplete_task_def update_task_def delete_task_def)

theorem not_found_is_a_result_witness:
  "tasks (json_codec 1000) sample_manager = Inr ([sample_task, done_task], sample_manager)
   \<and> 7 \<notin> task_id ` set [sample_task, done_task]
   \<and> complete_task (json_codec 1000) ''2024-02-01T08:00:00'' 7 sample_manager
       = Inr (None, sample_manager)
   \<and> uncomplete_task (json_codec 1000) 7 sample_manager = Inr (None, sample_manager)
   \<and> update_task (json_codec 1000) 7 (Some ''New'') None (Some ''low'') sample_manager
       = Inr (None, sample_manager)
   \<and> delete_task (json_codec 1000) 7 sample_manager = Inr (False, sample_manager)"
proof -
  have h1: "tasks (json_codec 1000) sample_manager
              = Inr ([sample_task, done_task], sample_manager)"
    by (rule tasks_sample_manager)
  have h2: "7 \<notin> task_id ` set [sample_task, done_task]"
    by (simp add: sample_task_def done_task_def)
  show ?thesis
    using h1 h2 not_found_is_a_result [OF h1 h2] by simp
qed

section \<open>Listing\<close>

lemma in_PRIORITIES:
  "(map_of PRIORITIES p \<noteq> None) = (p \<in> {''high'', ''medium'', ''low''})"
  by (auto simp: PRIORITIES_def)

lemma PRIORITIES_rank:
  "(case map_of PRIORITIES p of Some r \<Rightarrow> r | None \<Rightarrow> 2) = rank p"
  by (simp add: PRIORITIES_def rank_def)

lemma sort_key_of_rank: "sort_key_of t = (- rank (priority t), task_id t)"
  by (simp add: sort_key_of_def PRIORITIES_rank)

lemma sort_key_of_le: "(sort_key_of a \<le> sort_key_of b) = listed_before a b"
  by (auto simp: sort_key_of_rank listed_before_def less_eq_prod_def)

lemma lower_valid_nonempty: "lower p \<in> {''high'', ''medium'', ''low''} \<Longrightarrow> p \<noteq> []"
  by (auto simp: lower_def)

lemma filter_priority_keeps:
  "filter_priority prio ts =
     filter (\<lambda>t. case prio of None \<Rightarrow> True
                | Some p \<Rightarrow> lower p \<in> {''high'', ''medium'', ''low''} \<longrightarrow> priority t = lower p) ts"
proof (cases prio)
  case None
  then show ?thesis by (simp add: filter_priority_def)
next
  case (Some p)
  show ?thesis
  proof (cases "lower p \<in> {''high'', ''medium'', ''low''}")
    case True
    with Some lower_valid_nonempty [OF True] show ?thesis
      unfolding filter_priority_def in_PRIORITIES by simp
  next
    case False
    with Some show ?thesis
      unfolding filter_priority_def in_PRIORITIES by simp
  qed
qed

lemma filter_status_keeps:
  "filter_status status ts =
     filter (\<lambda>t. (status = Some ''completed'' \<longrightarrow> completed t)
               \<and> (status = Some ''pending'' \<longrightarrow> \<not> completed t)) ts"
  by (simp add: filter_status_def)

lemma filters_keep:
  "filter_priority prio (filter_status status ts) = filter (kept_by status prio) ts"
  unfolding filter_priority_keeps filter_status_keeps filter_filter kept_by_def
  by (rule filter_cong) auto

lemma listing_sorted: "sorted_wrt listed_before (listing status prio ts)"
proof -
  have "sorted (map sort_key_of (listing status prio ts))"
    by (simp add: listing_def)
  then show ?thesis
    by (simp add: sorted_map sort_key_of_le)
qed

lemma listing_mset: "mset (listing status prio ts) = mset (filter (kept_by status prio) ts)"
  by (simp add: listing_def filters_keep)

lemma listing_stable:
  "filter (\<lambda>t. sort_key_of t = k) (listing status prio ts)
     = filter (\<lambda>t. sort_key_of t = k) (filter (kept_by status prio) ts)"
  by (simp add: listing_def filters_keep sort_key_stable)

lemma listing_example: "map task_id (listing None None listed_example) = [2, 3, 1]"
  by (simp add: listing_def filter_priority_def filter_status_def listed_example_def
      sample_task_def sort_key_of_rank rank_def)

text \<open>
  C3. Let the collection of the manager be \<open>ts\<close>. \<open>list_tasks\<close> returns, without
  changing the manager beyond loading it, a list that
  \<^item> holds exactly the tasks of \<open>ts\<close> that the filters keep (\<open>kept_by\<close>: the completed
    ones for the status \<open>completed\<close>, the others for \<open>pending\<close>, every task for any other
    status; those whose priority is the lower-cased argument when that is one of high,
    medium, low, and every task otherwise), each as often as in \<open>ts\<close>;
  \<^item> is sorted by rank descending, then by id ascending (\<open>listed_before\<close>);
  \<^item> keeps tasks of equal rank and equal id in the order of \<open>ts\<close>.
  The example of the specification lists the ids 2, 3, 1.
\<close>

theorem list_tasks_filters_then_sorts:
  assumes "tasks J m = Inr (ts, m1)"
  shows "list_tasks J status prio m = Inr (listing status prio ts, m1)
       \<and> mset (listing status prio ts) = mset (filter (kept_by status prio) ts)
       \<and> sorted_wrt listed_before (listing status prio ts)
       \<and> filter (\<lambda>t. rank (priority t) = r \<and> task_id t = i) (listing status prio ts)
           = filter (\<lambda>t. rank (priority t) = r \<and> task_id t = i)
               (filter (kept_by status prio) ts)
       \<and> map task_id (listing None None listed_example) = [2, 3, 1]"
proof -
  have "(\<lambda>t. rank (priority t) = r \<and> task_id t = i) = (\<lambda>t. sort_key_of t = (- r, i))"
    by (auto simp: sort_key_of_rank)
  then have "filter (\<lambda>t. rank (priority t) = r \<and> task_id t = i) (listing status prio ts)
           = filter (\<lambda>t. rank (priority t) = r \<and> task_id t = i)
               (filter (kept_by status prio) ts)"
    using listing_stable [of "(- r, i)" status prio ts] by simp
  then show ?thesis
    using assms listing_mset listing_sorted listing_example
    by (simp add: list_tasks_def)
qed

theorem list_tasks_filters_then_sorts_witness:
  "tasks (json_codec 1000) \<lparr>tasks_attr = Some listed_example, storage = storage fresh\<rparr>
     = Inr (listed_example, \<lparr>tasks_attr = Some listed_example, storage = storage fresh\<rparr>)
   \<and> list_tasks (json_codec 1000) None None
        \<lparr>tasks_attr = Some listed_example, storage = storage fresh\<rparr>
     = Inr ([sample_task\<lparr>task_id := 2, priority := ''high''\<rparr>,
             sample_task\<lparr>task_id := 3, priority := ''high''\<rparr>,
             sample_task\<lparr>task_id := 1, priority := ''low''\<rparr>],
            \<lparr>tasks_attr = Some listed_example, storage = storage fresh\<rparr>)"
proof -
  let ?m = "\<lparr>tasks_attr = Some listed_example, storage = storage fresh\<rparr>"
  have h: "tasks (json_codec 1000) ?m = Inr (listed_example, ?m)"
    by (simp add: tasks_def)
  have v: "listing None None listed_example
             = [sample_task\<lparr>task_id := 2, priority := ''high''\<rparr>,
                sample_task\<lparr>task_id := 3, priority := ''high''\<rparr>,
                sample_task\<lparr>task_id := 1, priority := ''low''\<rparr>]"
    by (simp add: listing_def filter_priority_def filter_status_def listed_example_def
        sample_task_def sort_key_of_rank rank_def)
  show ?thesis
    using h v list_tasks_filters_then_sorts [OF h, of None None] by simp
qed

section \<open>Statistics\<close>

lemma by_priority_fold:
  "fold by_priority_step ts bp k =
     (case bp k of None \<Rightarrow> None | Some n \<Rightarrow> Some (n + pending_of k ts))"
proof (induction ts arbitrary: bp)
  case Nil
  then show ?case by (simp add: pending_of_def split: option.splits)
next
  case (Cons t ts)
  show ?case
    unfolding fold_simps Cons.IH
    by (auto simp: by_priority_step_def pending_of_def split: option.splits)
qed

lemma by_priority_counts:
  "the (fold by_priority_step ts by_priority_init ''high'') = pending_of ''high'' ts"
  "the (fold by_priority_step ts by_priority_init ''medium'') = pending_of ''medium'' ts"
  "the (fold by_priority_step ts by_priority_init ''low'') = pending_of ''low'' ts"
  by (simp_all add: by_priority_fold by_priority_init_def)

lemma length_not_completed:
  "int (length (filter (\<lambda>t. \<not> completed t) ts))
     = int (length ts) - int (length (filter (\<lambda>t. completed t) ts))"
  using sum_length_filter_compl [of "\<lambda>t. completed t" ts] by simp

lemma stats_of_counts:
  "stats_of ts =
     [(''total'', int (length ts)),
      (''completed'', int (length (filter (\<lambda>t. completed t) ts))),
      (''pending'', int (length (filter (\<lambda>t. \<not> completed t) ts))),
      (''high_priority'', pending_of ''high'' ts),
      (''medium_priority'', pending_of ''medium'' ts),
      (''low_priority'', pending_of ''low'' ts)]"
  by (simp add: stats_of_def Let_def by_priority_counts length_not_completed)

lemma stats_of_example:
  "stats_of stats_example =
     [(''total'', 3), (''completed'', 1), (''pending'', 2),
      (''high_priority'', 1), (''medium_priority'', 0), (''low_priority'', 1)]"
  by (simp add: stats_of_counts pending_of_def stats_example_def sample_task_def done_task_def)

text \<open>
  C6. Let the collection of the manager be \<open>ts\<close>. \<open>get_stats\<close> returns the number of
  tasks as \<open>total\<close>, the number of completed tasks as \<open>completed\<close>, their difference as
  \<open>pending\<close>, and as \<open>high_priority\<close>, \<open>medium_priority\<close> and \<open>low_priority\<close> the number
  of tasks of that priority that are not completed. On the example of the specification
  (a pending high task, a completed high task, a pending low task) the numbers are
  3, 1, 2, 1, 0, 1.
\<close>

theorem get_stats_counts:
  assumes "tasks J m = Inr (ts, m1)"
  shows "get_stats J m =
           Inr ([(''total'', int (length ts)),
                 (''completed'', int (length (filter (\<lambda>t. completed t) ts))),
                 (''pending'',
                    int (length ts) - int (length (filter (\<lambda>t. completed t) ts))),
                 (''high_priority'', pending_of ''high'' ts),
                 (''medium_priority'', pending_of ''medium'' ts),
                 (''low_priority'', pending_of ''low'' ts)], m1)
       \<and> stats_of stats_example =
           [(''total'', 3), (''completed'', 1), (''pending'', 2),
            (''high_priority'', 1), (''medium_priority'', 0), (''low_priority'', 1)]"
  using assms stats_of_example
  by (simp add: get_stats_def stats_of_counts length_not_completed)

theorem get_stats_counts_witness:
  "tasks (json_codec 1000) \<lparr>tasks_attr = Some stats_example, storage = storage fresh\<rparr>
     = Inr (stats_example, \<lparr>tasks_attr = Some stats_example, storage = storage fresh\<rparr>)
   \<and> get_stats (json_codec 1000) \<lparr>tasks_attr = Some stats_example, storage = storage fresh\<rparr>
     = Inr ([(''total'', 3), (''completed'', 1), (''pending'', 2),
             (''high_priority'', 1), (''medium_priority'', 0), (''low_priority'', 1)],
            \<lparr>tasks_attr = Some stats_example, storage = storage fresh\<rparr>)"
proof -
  let ?m = "\<lparr>tasks_attr = Some stats_example, storage = storage fresh\<rparr>"
  have h: "tasks (json_codec 1000) ?m = Inr (stats_example, ?m)"
    by (simp add: tasks_def)
  have v: "length stats_example = 3"
    "length (filter (\<lambda>t. completed t) stats_example) = 1"
    "pending_of ''high'' stats_example = 1"
    "pending_of ''medium'' stats_example = 0"
    "pending_of ''low'' stats_example = 1"
    by (simp_all add: pending_of_def stats_example_def sample_task_def done_task_def)
  show ?thesis
    using h get_stats_counts [OF h] by (simp add: v)
qed

section \<open>Clearing the completed tasks\<close>

lemma length_completed:
  "int (length ts) - int (length (filter (\<lambda>t. \<not> completed t) ts))
     = int (length (filter (\<lambda>t. completed t) ts))"
  using sum_length_filter_compl [of "\<lambda>t. completed t" ts] by simp

lemma fewer_not_completed:
  "(length (filter (\<lambda>t. \<not> completed t) ts) < length ts)
     = (filter (\<lambda>t. completed t) ts \<noteq> [])"
proof -
  have "length (filter (\<lambda>t. completed t) ts) + length (filter (\<lambda>t. \<not> completed t) ts)
          = length ts"
    by (rule sum_length_filter_compl)
  moreover have "(filter (\<lambda>t. completed t) ts \<noteq> []) = (0 < length (filter (\<lambda>t. completed t) ts))"
    by simp
  ultimately show ?thesis by linarith
qed

lemma save_loaded:
  "save J \<lparr>tasks_attr = Some ts, storage = st\<rparr>
     = \<lparr>tasks_attr = Some ts, storage = save_tasks J ts st\<rparr>"
  by (simp add: save_def)

lemma tasks_result_eq:
  "tasks J m = Inr (ts, m1) \<Longrightarrow> m1 = \<lparr>tasks_attr = Some ts, storage = storage m\<rparr>"
  by (auto simp: tasks_def split: option.splits sum.splits document.splits)

text \<open>
  C7. Let the collection of the manager be \<open>ts\<close>. \<open>clear_completed\<close> returns the number
  of completed tasks of \<open>ts\<close> and leaves as the collection the tasks of \<open>ts\<close> that are not
  completed, in their order; the storage is saved once, with that collection, when the
  number is positive, and is untouched when it is zero. A second call right after
  returns 0 and changes neither the collection nor the storage.
\<close>

theorem clear_completed_removes_completed:
  assumes "tasks J m = Inr (ts, m1)"
  shows "(let kept = filter (\<lambda>t. \<not> completed t) ts;
              removed = int (length (filter (\<lambda>t. completed t) ts));
              m2 = \<lparr>tasks_attr = Some kept,
                    storage = (if removed > 0 then save_tasks J kept (storage m)
                               else storage m)\<rparr>
          in clear_completed J m = Inr (removed, m2)
           \<and> clear_completed J m2 = Inr (0, m2))"
proof -
  let ?kept = "filter (\<lambda>t. \<not> completed t) ts"
  let ?st = "if 0 < length (filter (\<lambda>t. completed t) ts)
             then save_tasks J ?kept (storage m) else storage m"
  have first: "clear_completed J m =
      Inr (int (length (filter (\<lambda>t. completed t) ts)),
           \<lparr>tasks_attr = Some ?kept, storage = ?st\<rparr>)"
    using assms tasks_result_eq [OF assms]
    by (simp add: clear_completed_def Let_def length_completed save_loaded
        fewer_not_completed)
  have "filter (\<lambda>t. completed t) ?kept = []" by simp
  then have second: "clear_completed J \<lparr>tasks_attr = Some ?kept, storage = ?st\<rparr>
      = Inr (0, \<lparr>tasks_attr = Some ?kept, storage = ?st\<rparr>)"
    by (simp add: clear_completed_def Let_def tasks_def)
  show ?thesis using first second by (simp add: Let_def)
qed

theorem clear_completed_removes_completed_witness:
  "tasks (json_codec 1000) sample_manager = Inr ([sample_task, done_task], sample_manager)
   \<and> clear_completed (json_codec 1000) sample_manager
       = Inr (1, \<lparr>tasks_attr = Some [sample_task],
                  storage = \<lparr>data_file = Text (json_dumps [sample_task]), saves = 2\<rparr>\<rparr>)
   \<and> clear_completed (json_codec 1000)
        \<lparr>tasks_attr = Some [sample_task],
         storage = \<lparr>data_file = Text (json_dumps [sample_task]), saves = 2\<rparr>\<rparr>
       = Inr (0, \<lparr>tasks_attr = Some [sample_task],
                  storage = \<lparr>data_file = Text (json_dumps [sample_task]), saves = 2\<rparr>\<rparr>)"
proof -
  have h: "tasks (json_codec 1000) sample_manager
             = Inr ([sample_task, done_task], sample_manager)"
    by (rule tasks_sample_manager)
  have v: "\<not> completed sample_task" "completed done_task"
    by (simp_all add: sample_task_def done_task_def)
  have w: "save_tasks (json_codec 1000) [sample_task] (storage sample_manager)
             = \<lparr>data_file = Text (json_dumps [sample_task]), saves = 2\<rparr>"
    by (simp add: save_tasks_def sample_manager_def json_codec_def)
  show ?thesis
    using h clear_completed_removes_completed [OF h] by (simp add: Let_def v w)
qed

section \<open>An invalid priority\<close>

lemma mutate_first_id: "mutate_first tid (\<lambda>t. t) ts = ts"
  by (induction ts) auto

lemma apply_update_invalid:
  "lower p \<notin> {''high'', ''medium'', ''low''} \<Longrightarrow>
   apply_update ttl descr (Some p) t =
     t\<lparr>title := (case ttl of None \<Rightarrow> title t | Some s \<Rightarrow> s),
       description := (case descr of None \<Rightarrow> description t | Some s \<Rightarrow> s)\<rparr>"
  by (auto simp: apply_update_def PRIORITIES_def Let_def split: option.splits)

lemma apply_update_nothing: "apply_update None None None = (\<lambda>t. t)"
  by (simp add: apply_update_def fun_eq_iff)

lemma update_task_found:
  assumes "tasks J m = Inr (ts, m1)" and "find (\<lambda>t. task_id t = tid) ts = Some t"
  shows "update_task J tid ttl descr prio m =
           Inr (Some (apply_update ttl descr prio t),
                \<lparr>tasks_attr = Some (mutate_first tid (apply_update ttl descr prio) ts),
                 storage = save_tasks J (mutate_first tid (apply_update ttl descr prio) ts)
                             (storage m)\<rparr>)"
  using assms tasks_result_eq [OF assms(1)]
  by (simp add: update_task_def Let_def save_loaded)

lemma add_task_loaded:
  assumes "tasks J m = Inr (ts, m1)"
  shows "add_task J now ttl prio descr m =
    (let t = \<lparr>task_id = get_next_id ts, title = ttl, description = descr,
              priority = (if lower prio \<in> {''high'', ''medium'', ''low''} then lower prio
                          else ''medium''),
              completed = False, created_at = now, completed_at = None\<rparr>
     in Inr (t, \<lparr>tasks_attr = Some (ts @ [t]),
                 storage = save_tasks J (ts @ [t]) (storage m)\<rparr>))"
proof -
  have "(map_of PRIORITIES (lower prio) = None) = (lower prio \<notin> {''high'', ''medium'', ''low''})"
    by (auto simp: PRIORITIES_def)
  then show ?thesis
    using assms tasks_result_eq [OF assms]
    by (simp add: add_task_def Let_def save_loaded)
qed

lemma apply_update_invalid_fun:
  "lower p \<notin> {''high'', ''medium'', ''low''} \<Longrightarrow>
   apply_update ttl descr (Some p) =
     (\<lambda>u. u\<lparr>title := (case ttl of None \<Rightarrow> title u | Some s \<Rightarrow> s),
            description := (case descr of None \<Rightarrow> description u | Some s \<Rightarrow> s)\<rparr>)"
  by (rule ext) (rule apply_update_invalid)

lemma priority_mutate_first:
  "(\<And>u. priority (f u) = priority u) \<Longrightarrow> map priority (mutate_first tid f ts) = map priority ts"
  by (induction ts) auto

text \<open>
  C4. Let the collection of the manager be \<open>ts\<close>.
  \<^item> When the lower-cased priority is none of high, medium, low, \<open>add_task\<close> builds the
    task with the priority \<open>medium\<close>, appends it to the collection, saves the collection
    and returns the task.
  \<^item> With such a priority, \<open>update_task\<close> on an id that \<open>get_task\<close> finds replaces the
    first task with that id, in the collection, by the task with the given title and
    description (each only when given) and every other field as it was; no priority in
    the collection changes. It saves that collection and returns the task.
  \<^item> Whatever the arguments, \<open>update_task\<close> on an id that \<open>get_task\<close> finds saves the
    collection it leaves; with no argument given the task and the collection are what
    they were, and the storage is saved all the same: one more save, and the data file
    holds the text of the collection.
\<close>

theorem invalid_priority_add_and_update:
  assumes "tasks J m = Inr (ts, m1)"
  shows "(lower p \<notin> {''high'', ''medium'', ''low''} \<longrightarrow>
            (let t = \<lparr>task_id = get_next_id ts, title = ttl, description = descr,
                      priority = ''medium'', completed = False, created_at = now,
                      completed_at = None\<rparr>
             in add_task J now ttl p descr m =
                  Inr (t, \<lparr>tasks_attr = Some (ts @ [t]),
                           storage = save_tasks J (ts @ [t]) (storage m)\<rparr>)))
       \<and> (lower p \<notin> {''high'', ''medium'', ''low''}
            \<and> find (\<lambda>t. task_id t = tid) ts = Some t \<longrightarrow>
            (let f = (\<lambda>u. u\<lparr>title := (case ttl' of None \<Rightarrow> title u | Some s \<Rightarrow> s),
                             description :=
                               (case descr' of None \<Rightarrow> description u | Some s \<Rightarrow> s)\<rparr>);
                 ts' = mutate_first tid f ts
             in update_task J tid ttl' descr' (Some p) m =
                  Inr (Some (f t),
                       \<lparr>tasks_attr = Some ts', storage = save_tasks J ts' (storage m)\<rparr>)
              \<and> map priority ts' = map priority ts))
       \<and> (find (\<lambda>t. task_id t = tid) ts = Some t \<longrightarrow>
            (let ts' = mutate_first tid (apply_update ttl' descr' prio) ts
             in update_task J tid ttl' descr' prio m =
                  Inr (Some (apply_update ttl' descr' prio t),
                       \<lparr>tasks_attr = Some ts', storage = save_tasks J ts' (storage m)\<rparr>))
            \<and> update_task J tid None None None m =
                Inr (Some t, \<lparr>tasks_attr = Some ts, storage = save_tasks J ts (storage m)\<rparr>)
            \<and> saves (save_tasks J ts (storage m)) = Suc (saves (storage m))
            \<and> data_file (save_tasks J ts (storage m)) = Text (dumps J ts))"
proof -
  have a: "lower p \<notin> {''high'', ''medium'', ''low''} \<Longrightarrow>
      (let t = \<lparr>task_id = get_next_id ts, title = ttl, description = descr,
                      priority = ''medium'', completed = False, created_at = now,
                      completed_at = None\<rparr>
             in add_task J now ttl p descr m =
                  Inr (t, \<lparr>tasks_attr = Some (ts @ [t]),
                           storage = save_tasks J (ts @ [t]) (storage m)\<rparr>))"
    using add_task_loaded [OF assms, of now ttl p descr] by (simp add: Let_def)
  have b: "lower p \<notin> {''high'', ''medium'', ''low''} \<Longrightarrow>
      find (\<lambda>t. task_id t = tid) ts = Some t \<Longrightarrow>
      (let f = (\<lambda>u. u\<lparr>title := (case ttl' of None \<Rightarrow> title u | Some s \<Rightarrow> s),
                             description :=
                               (case descr' of None \<Rightarrow> description u | Some s \<Rightarrow> s)\<rparr>);
                 ts' = mutate_first tid f ts
             in update_task J tid ttl' descr' (Some p) m =
                  Inr (Some (f t),
                       \<lparr>tasks_attr = Some ts', storage = save_tasks J ts' (storage m)\<rparr>)
              \<and> map priority ts' = map priority ts)"
    using update_task_found [OF assms, of tid t ttl' descr' "Some p"]
    by (simp add: apply_update_invalid_fun Let_def priority_mutate_first)
  have c: "find (\<lambda>t. task_id t = tid) ts = Some t \<Longrightarrow>
      (let ts' = mutate_first tid (apply_update ttl' descr' prio) ts
             in update_task J tid ttl' descr' prio m =
                  Inr (Some (apply_update ttl' descr' prio t),
                       \<lparr>tasks_attr = Some ts', storage = save_tasks J ts' (storage m)\<rparr>))"
    using update_task_found [OF assms, of tid t ttl' descr' prio] by (simp add: Let_def)
  have d: "find (\<lambda>t. task_id t = tid) ts = Some t \<Longrightarrow>
      update_task J tid None None None m =
                Inr (Some t, \<lparr>tasks_attr = Some ts, storage = save_tasks J ts (storage m)\<rparr>)"
    using update_task_found [OF assms, of tid t None None None]
    by (simp add: apply_update_nothing mutate_first_id)
  have e: "saves (save_tasks J ts (storage m)) = Suc (saves (storage m))
            \<and> data_file (save_tasks J ts (storage m)) = Text (dumps J ts)"
    by (simp add: save_tasks_def)
  show ?thesis using a b c d e by blast
qed

theorem invalid_priority_add_and_update_witness:
  "tasks (json_codec 1000) sample_manager
     = Inr ([sample_task, done_task], sample_manager)
   \<and> lower ''Bogus'' \<notin> {''high'', ''medium'', ''low''}
   \<and> find (\<lambda>t. task_id t = 1) [sample_task, done_task] = Some sample_task
   \<and> add_task (json_codec 1000) ''2024-03-01T12:00:00'' ''New'' ''Bogus'' [] sample_manager
       = Inr (\<lparr>task_id = 3, title = ''New'', description = [], priority = ''medium'',
               completed = False, created_at = ''2024-03-01T12:00:00'',
               completed_at = None\<rparr>,
              \<lparr>tasks_attr = Some [sample_task, done_task,
                   \<lparr>task_id = 3, title = ''New'', description = [], priority = ''medium'',
                    completed = False, created_at = ''2024-03-01T12:00:00'',
                    completed_at = None\<rparr>],
               storage =
                 \<lparr>data_file = Text (json_dumps [sample_task, done_task,
                    \<lparr>task_id = 3, title = ''New'', description = [], priority = ''medium'',
                     completed = False, created_at = ''2024-03-01T12:00:00'',
                     completed_at = None\<rparr>]),
                  saves = 2\<rparr>\<rparr>)
   \<and> update_task (json_codec 1000) 1 (Some ''Renamed'') None (Some ''Bogus'') sample_manager
       = Inr (Some (sample_task\<lparr>title := ''Renamed''\<rparr>),
              \<lparr>tasks_attr = Some [sample_task\<lparr>title := ''Renamed''\<rparr>, done_task],
               storage =
                 \<lparr>data_file = Text (json_dumps [sample_task\<lparr>title := ''Renamed''\<rparr>, done_task]),
                  saves = 2\<rparr>\<rparr>)
   \<and> priority (sample_task\<lparr>title := ''Renamed''\<rparr>) = ''high''
   \<and> update_task (json_codec 1000) 1 None None None sample_manager
       = Inr (Some sample_task,
              \<lparr>tasks_attr = Some [sample_task, done_task],
               storage = \<lparr>data_file = Text (json_dumps [sample_task, done_task]),
                          saves = 2\<rparr>\<rparr>)"
proof -
  have h: "tasks (json_codec 1000) sample_manager
             = Inr ([sample_task, done_task], sample_manager)"
    by (rule tasks_sample_manager)
  have p: "lower ''Bogus'' \<notin> {''high'', ''medium'', ''low''}"
    by (simp add: lower_def lower_char_def)
  have f: "find (\<lambda>t. task_id t = 1) [sample_task, done_task] = Some sample_task"
    by (simp add: sample_task_def)
  have w: "save_tasks (json_codec 1000) ts (storage sample_manager)
             = \<lparr>data_file = Text (json_dumps ts), saves = 2\<rparr>" for ts
    by (simp add: save_tasks_def sample_manager_def json_codec_def)
  have n: "get_next_id [sample_task, done_task] = 3"
    by (simp add: sample_task_def done_task_def)
  have i: "task_id sample_task = 1" "task_id done_task = 2"
    by (simp_all add: sample_task_def done_task_def)
  have q: "priority (sample_task\<lparr>title := ''Renamed''\<rparr>) = ''high''"
    by (simp add: sample_task_def)
  note t = invalid_priority_add_and_update [OF h, where p = "''Bogus''"
      and now = "''2024-03-01T12:00:00''" and ttl = "''New''" and descr = "[]"
      and tid = 1 and t = sample_task and ttl' = "Some ''Renamed''" and descr' = None
      and prio = None]
  show ?thesis
    using h p f q t by (simp add: Let_def w n i)
qed

section \<open>What each call leaves behind\<close>

lemma mutate_first_absent:
  "find (\<lambda>t. task_id t = tid) ts = None \<Longrightarrow> mutate_first tid f ts = ts"
  by (induction ts) (auto split: if_splits)

lemma complete_task_loaded:
  assumes "tasks J m = Inr (ts, m1)"
  shows "complete_task J now tid m =
           Inr (map_option (\<lambda>t. t\<lparr>completed := True, completed_at := Some now\<rparr>)
                  (find (\<lambda>t. task_id t = tid) ts),
                \<lparr>tasks_attr = Some (effect (CompleteTask now tid) ts),
                 storage = (if find (\<lambda>t. task_id t = tid) ts = None then storage m
                            else save_tasks J (effect (CompleteTask now tid) ts) (storage m))\<rparr>)"
  using assms tasks_result_eq [OF assms]
  by (auto simp: complete_task_def Let_def mutate_first_absent save_loaded
      split: option.splits)

lemma uncomplete_task_loaded:
  assumes "tasks J m = Inr (ts, m1)"
  shows "uncomplete_task J tid m =
           Inr (map_option (\<lambda>t. t\<lparr>completed := False, completed_at := None\<rparr>)
                  (find (\<lambda>t. task_id t = tid) ts),
                \<lparr>tasks_attr = Some (effect (UncompleteTask tid) ts),
                 storage = (if find (\<lambda>t. task_id t = tid) ts = None then storage m
                            else save_tasks J (effect (UncompleteTask tid) ts) (storage m))\<rparr>)"
  using assms tasks_result_eq [OF assms]
  by (auto simp: uncomplete_task_def Let_def mutate_first_absent save_loaded
      split: option.splits)

lemma update_task_loaded:
  assumes "tasks J m = Inr (ts, m1)"
  shows "update_task J tid ttl descr prio m =
           Inr (map_option (apply_update ttl descr prio) (find (\<lambda>t. task_id t = tid) ts),
                \<lparr>tasks_attr = Some (effect (UpdateTask tid ttl descr prio) ts),
                 storage = (if find (\<lambda>t. task_id t = tid) ts = None then storage m
                            else save_tasks J (effect (UpdateTask tid ttl descr prio) ts)
                                   (storage m))\<rparr>)"
  using assms tasks_result_eq [OF assms]
  by (auto simp: update_task_def Let_def mutate_first_absent save_loaded
      split: option.splits)

lemma delete_task_loaded:
  assumes "tasks J m = Inr (ts, m1)"
  shows "delete_task J tid m =
           Inr (pop_first tid ts \<noteq> None,
                \<lparr>tasks_attr = Some (effect (DeleteTask tid) ts),
                 storage = (if pop_first tid ts = None then storage m
                            else save_tasks J (effect (DeleteTask tid) ts) (storage m))\<rparr>)"
  using assms tasks_result_eq [OF assms]
  by (auto simp: delete_task_def save_loaded split: option.splits)

lemma step_effect:
  assumes "tasks J m = Inr (ts, m1)"
  shows "\<exists>r st. step J c m = Inr (r, \<lparr>tasks_attr = Some (effect c ts), storage = st\<rparr>)"
proof (cases c)
  case (AddTask now ttl prio descr)
  then show ?thesis
    using assms tasks_result_eq [OF assms]
    by (simp add: returning_def add_task_def Let_def save_loaded)
next
  case (GetTask tid)
  then show ?thesis
    using assms tasks_result_eq [OF assms] by (simp add: returning_def get_task_def)
next
  case (ListTasks status prio)
  then show ?thesis
    using assms tasks_result_eq [OF assms] by (simp add: returning_def list_tasks_def)
next
  case (CompleteTask now tid)
  then show ?thesis
    using complete_task_loaded [OF assms] by (simp add: returning_def)
next
  case (UncompleteTask tid)
  then show ?thesis
    using uncomplete_task_loaded [OF assms] by (simp add: returning_def)
next
  case (DeleteTask tid)
  then show ?thesis
    using delete_task_loaded [OF assms] by (simp add: returning_def)
next
  case (UpdateTask tid ttl descr prio)
  then show ?thesis
    using update_task_loaded [OF assms] by (simp add: returning_def)
next
  case GetStats
  then show ?thesis
    using assms tasks_result_eq [OF assms] by (simp add: returning_def get_stats_def)
next
  case ClearCompleted
  then show ?thesis
    using assms tasks_result_eq [OF assms]
    by (simp add: returning_def clear_completed_def Let_def save_loaded)
qed

lemma tasks_loaded: "tasks J \<lparr>tasks_attr = Some ts, storage = st\<rparr>
   = Inr (ts, \<lparr>tasks_attr = Some ts, storage = st\<rparr>)"
  by (simp add: tasks_def)

section \<open>Invariants of the collection\<close>

lemma list_all_mutate_first:
  "list_all P ts \<Longrightarrow> (\<And>t. P t \<Longrightarrow> P (f t)) \<Longrightarrow> list_all P (mutate_first tid f ts)"
  by (induction ts) auto

lemma list_all_pop_first:
  "list_all P ts \<Longrightarrow> pop_first tid ts = Some ts' \<Longrightarrow> list_all P ts'"
  by (induction ts arbitrary: ts') (auto split: if_splits option.splits)

lemma consistent_effect: "list_all consistent ts \<Longrightarrow> list_all consistent (effect c ts)"
proof (cases c)
  case (AddTask now ttl prio descr)
  then show "list_all consistent ts \<Longrightarrow> ?thesis"
    by (simp add: consistent_def)
next
  case (CompleteTask now tid)
  have "consistent (t\<lparr>completed := True, completed_at := Some now\<rparr>)" for t
    by (simp add: consistent_def)
  then show "list_all consistent ts \<Longrightarrow> ?thesis"
    using CompleteTask by (simp add: list_all_mutate_first)
next
  case (UncompleteTask tid)
  have "consistent (t\<lparr>completed := False, completed_at := None\<rparr>)" for t
    by (simp add: consistent_def)
  then show "list_all consistent ts \<Longrightarrow> ?thesis"
    using UncompleteTask by (simp add: list_all_mutate_first)
next
  case (UpdateTask tid ttl descr prio)
  have "consistent t \<Longrightarrow> consistent (apply_update ttl descr prio t)" for t
    by (auto simp: consistent_def apply_update_def Let_def split: option.splits)
  then show "list_all consistent ts \<Longrightarrow> ?thesis"
    using UpdateTask by (simp add: list_all_mutate_first)
next
  case (DeleteTask tid)
  then show "list_all consistent ts \<Longrightarrow> ?thesis"
    by (auto simp: list_all_pop_first split: option.splits)
next
  case ClearCompleted
  then show "list_all consistent ts \<Longrightarrow> ?thesis"
    by (simp add: list_all_iff)
qed simp_all

lemma valid_priority_effect:
  "list_all valid_priority ts \<Longrightarrow> list_all valid_priority (effect c ts)"
proof (cases c)
  case (AddTask now ttl prio descr)
  then show "list_all valid_priority ts \<Longrightarrow> ?thesis"
    by (auto simp: valid_priority_def PRIORITIES_def)
next
  case (CompleteTask now tid)
  have "valid_priority t \<Longrightarrow> valid_priority (t\<lparr>completed := True, completed_at := Some now\<rparr>)"
    for t by (simp add: valid_priority_def)
  then show "list_all valid_priority ts \<Longrightarrow> ?thesis"
    using CompleteTask by (simp add: list_all_mutate_first)
next
  case (UncompleteTask tid)
  have "valid_priority t \<Longrightarrow> valid_priority (t\<lparr>completed := False, completed_at := None\<rparr>)"
    for t by (simp add: valid_priority_def)
  then show "list_all valid_priority ts \<Longrightarrow> ?thesis"
    using UncompleteTask by (simp add: list_all_mutate_first)
next
  case (UpdateTask tid ttl descr prio)
  have "valid_priority t \<Longrightarrow> valid_priority (apply_update ttl descr prio t)" for t
    by (auto simp: valid_priority_def apply_update_def Let_def PRIORITIES_def
        split: option.splits)
  then show "list_all valid_priority ts \<Longrightarrow> ?thesis"
    using UpdateTask by (simp add: list_all_mutate_first)
next
  case (DeleteTask tid)
  then show "list_all valid_priority ts \<Longrightarrow> ?thesis"
    by (auto simp: list_all_pop_first split: option.splits)
next
  case ClearCompleted
  then show "list_all valid_priority ts \<Longrightarrow> ?thesis"
    by (simp add: list_all_iff)
qed simp_all

lemma step_invariant:
  assumes "tasks J m = Inr (ts, m1)" and "I ts" and "\<And>ts. I ts \<Longrightarrow> I (effect c ts)"
  shows "\<exists>r m2 ts2. step J c m = Inr (r, m2) \<and> tasks J m2 = Inr (ts2, m2) \<and> I ts2"
proof -
  obtain r st where "step J c m = Inr (r, \<lparr>tasks_attr = Some (effect c ts), storage = st\<rparr>)"
    using step_effect [OF assms(1)] by blast
  then show ?thesis
    using assms(2,3) tasks_loaded by blast
qed

lemma run_invariant:
  assumes "tasks J m = Inr (ts, m1)" and "I ts" and "\<And>c ts. I ts \<Longrightarrow> I (effect c ts)"
  shows "\<exists>rs m2 ts2 m3. run J cs m = Inr (rs, m2) \<and> tasks J m2 = Inr (ts2, m3) \<and> I ts2"
  using assms(1,2)
proof (induction cs arbitrary: m ts m1)
  case Nil
  then show ?case by auto
next
  case (Cons c cs)
  obtain r m2 ts2 where s: "step J c m = Inr (r, m2)" "tasks J m2 = Inr (ts2, m2)" "I ts2"
    using step_invariant [OF Cons.prems(1,2) assms(3)] by blast
  obtain rs m3 ts3 m4 where "run J cs m2 = Inr (rs, m3)" "tasks J m3 = Inr (ts3, m4)" "I ts3"
    using Cons.IH [OF s(2,3)] by blast
  then show ?case using s(1) by auto
qed

lemma all_tasks_iff:
  "all_tasks J P m = (\<exists>ts m1. tasks J m = Inr (ts, m1) \<and> list_all P ts)"
  by (auto simp: all_tasks_def split: sum.splits)

text \<open>
  C5. On a manager whose collection is empty at the start, every sequence of calls
  returns, and in the manager it leaves every task has \<open>completed\<close> true exactly when
  \<open>completed_at\<close> is not \<open>None\<close>. Each single call (\<open>add_task\<close>, \<open>complete_task\<close>,
  \<open>uncomplete_task\<close>, \<open>update_task\<close>, \<open>delete_task\<close>, \<open>clear_completed\<close> and the three
  that only read) on a manager whose tasks all have the property returns and leaves a
  manager whose tasks all have it.
\<close>

theorem completed_iff_completed_at:
  assumes "tasks J m0 = Inr ([], m1)"
  shows "(\<exists>rs m. run J cs m0 = Inr (rs, m) \<and> all_tasks J consistent m)
       \<and> (all_tasks J consistent m \<longrightarrow>
            (\<exists>r m2. step J c m = Inr (r, m2) \<and> all_tasks J consistent m2))"
proof
  show "\<exists>rs m. run J cs m0 = Inr (rs, m) \<and> all_tasks J consistent m"
    using run_invariant [where I = "list_all consistent", OF assms _ consistent_effect, of cs]
    unfolding all_tasks_iff by auto
next
  show "all_tasks J consistent m \<longrightarrow>
            (\<exists>r m2. step J c m = Inr (r, m2) \<and> all_tasks J consistent m2)"
  proof
    assume "all_tasks J consistent m"
    then obtain ts m1 where t: "tasks J m = Inr (ts, m1)" "list_all consistent ts"
      unfolding all_tasks_iff by blast
    show "\<exists>r m2. step J c m = Inr (r, m2) \<and> all_tasks J consistent m2"
      using step_invariant [where I = "list_all consistent", OF t consistent_effect, of c]
      unfolding all_tasks_iff by blast
  qed
qed

theorem completed_iff_completed_at_witness:
  "tasks (json_codec 1000) fresh = Inr ([], fresh\<lparr>tasks_attr := Some []\<rparr>)
   \<and> (\<exists>rs m. run (json_codec 1000)
                 [AddTask ''2024-01-01T09:00:00'' ''Test'' ''high'' [],
                  CompleteTask ''2024-01-02T10:00:00'' 1,
                  UncompleteTask 1] fresh = Inr (rs, m)
             \<and> all_tasks (json_codec 1000) consistent m)
   \<and> all_tasks (json_codec 1000) consistent sample_manager
   \<and> (\<exists>r m2. step (json_codec 1000) (CompleteTask ''2024-01-02T10:00:00'' 1) sample_manager
                = Inr (r, m2)
             \<and> all_tasks (json_codec 1000) consistent m2)"
proof -
  have h: "tasks (json_codec 1000) fresh = Inr ([], fresh\<lparr>tasks_attr := Some []\<rparr>)"
    by (rule tasks_fresh)
  have a: "all_tasks (json_codec 1000) consistent sample_manager"
    by (simp add: all_tasks_def tasks_sample_manager consistent_def sample_task_def
        done_task_def)
  show ?thesis
    using h a
      completed_iff_completed_at [OF h,
        where cs = "[AddTask ''2024-01-01T09:00:00'' ''Test'' ''high'' [],
                     CompleteTask ''2024-01-02T10:00:00'' 1, UncompleteTask 1]"
          and m = sample_manager and c = "CompleteTask ''2024-01-02T10:00:00'' 1"]
    by blast
qed

lemma pending_sum:
  "list_all valid_priority ts \<Longrightarrow>
   pending_of ''high'' ts + pending_of ''medium'' ts + pending_of ''low'' ts
     = int (length ts) - int (length (filter (\<lambda>t. completed t) ts))"
  by (induction ts) (auto simp: pending_of_def valid_priority_def)

text \<open>
  C10. On a manager whose collection is empty at the start, every sequence of calls
  returns and leaves a manager in which the priority of every task is one of the strings
  \<open>high\<close>, \<open>medium\<close>, \<open>low\<close>; \<open>get_stats\<close> on that manager returns numbers with
  \<open>high_priority + medium_priority + low_priority = pending\<close>.
\<close>

theorem priorities_stay_valid:
  assumes "tasks J m0 = Inr ([], m1)"
  shows "\<exists>rs m. run J cs m0 = Inr (rs, m) \<and> all_tasks J valid_priority m
           \<and> (\<exists>n c p h md l m2.
                 get_stats J m =
                   Inr ([(''total'', n), (''completed'', c), (''pending'', p),
                         (''high_priority'', h), (''medium_priority'', md),
                         (''low_priority'', l)], m2)
                 \<and> h + md + l = p)"
proof -
  obtain rs m ts m2 where r: "run J cs m0 = Inr (rs, m)" "tasks J m = Inr (ts, m2)"
      "list_all valid_priority ts"
    using run_invariant [where I = "list_all valid_priority",
        OF assms _ valid_priority_effect, of cs]
    by auto
  have "all_tasks J valid_priority m"
    using r(2,3) unfolding all_tasks_iff by blast
  moreover have "get_stats J m =
      Inr ([(''total'', int (length ts)),
            (''completed'', int (length (filter (\<lambda>t. completed t) ts))),
            (''pending'', int (length ts) - int (length (filter (\<lambda>t. completed t) ts))),
            (''high_priority'', pending_of ''high'' ts),
            (''medium_priority'', pending_of ''medium'' ts),
            (''low_priority'', pending_of ''low'' ts)], m2)"
    using r(2) by (simp add: get_stats_def stats_of_counts length_not_completed)
  ultimately show ?thesis
    using r(1) pending_sum [OF r(3)] by blast
qed

theorem priorities_stay_valid_witness:
  "tasks (json_codec 1000) fresh = Inr ([], fresh\<lparr>tasks_attr := Some []\<rparr>)
   \<and> (\<exists>rs m. run (json_codec 1000)
                 [AddTask ''2024-01-01T09:00:00'' ''Test'' ''Bogus'' [],
                  UpdateTask 1 None None (Some ''URGENT''),
                  UpdateTask 1 None None (Some ''LOW'')] fresh = Inr (rs, m)
             \<and> all_tasks (json_codec 1000) valid_priority m
             \<and> (\<exists>n c p h md l m2.
                   get_stats (json_codec 1000) m =
                     Inr ([(''total'', n), (''completed'', c), (''pending'', p),
                           (''high_priority'', h), (''medium_priority'', md),
                           (''low_priority'', l)], m2)
                   \<and> h + md + l = p))"
proof -
  have h: "tasks (json_codec 1000) fresh = Inr ([], fresh\<lparr>tasks_attr := Some []\<rparr>)"
    by (rule tasks_fresh)
  show ?thesis
    using h
      priorities_stay_valid [OF h,
        where cs = "[AddTask ''2024-01-01T09:00:00'' ''Test'' ''Bogus'' [],
                     UpdateTask 1 None None (Some ''URGENT''),
                     UpdateTask 1 None None (Some ''LOW'')]"]
    by blast
qed

section \<open>The ids that add\_task assigns\<close>

lemma get_next_id_gt: "u \<in> set ts \<Longrightarrow> task_id u < get_next_id ts"
proof (cases ts)
  case Nil
  then show "u \<in> set ts \<Longrightarrow> ?thesis" by simp
next
  case (Cons t ts')
  assume "u \<in> set ts"
  then have "task_id u \<in> set (task_id t # map task_id ts')"
    using Cons by auto
  then have "task_id u \<le> Max (set (task_id t # map task_id ts'))"
    by (intro Max_ge) auto
  also have "\<dots> = fold max (map task_id ts') (task_id t)"
    by (rule Max.set_eq_fold)
  finally show ?thesis using Cons by simp
qed

lemma map_id_mutate_first:
  "(\<And>t. task_id (f t) = task_id t) \<Longrightarrow> map task_id (mutate_first tid f ts) = map task_id ts"
  by (induction ts) auto

lemma task_id_apply_update: "task_id (apply_update ttl descr prio t) = task_id t"
  by (simp add: apply_update_def Let_def split: option.splits)

lemma pop_first_subset: "pop_first tid ts = Some ts' \<Longrightarrow> set ts' \<subseteq> set ts"
  by (induction ts arbitrary: ts') (auto split: if_splits option.splits)

lemma pop_first_sorted:
  "pop_first tid ts = Some ts' \<Longrightarrow> sorted_wrt R ts \<Longrightarrow> sorted_wrt R ts'"
proof (induction ts arbitrary: ts')
  case Nil
  then show ?case by simp
next
  case (Cons t ts)
  show ?case
  proof (cases "task_id t = tid")
    case True
    with Cons.prems show ?thesis by simp
  next
    case False
    with Cons.prems obtain ts2 where p: "pop_first tid ts = Some ts2" "ts' = t # ts2"
      by (auto split: option.splits)
    then show ?thesis
      using Cons.IH [OF p(1)] Cons.prems(2) pop_first_subset [OF p(1)] by auto
  qed
qed

lemma sorted_ids_effect:
  assumes "sorted_wrt (<) (map task_id ts)"
  shows "sorted_wrt (<) (map task_id (effect c ts))"
proof (cases c)
  case (AddTask now ttl prio descr)
  then show ?thesis
    using assms get_next_id_gt [of _ ts] by (auto simp: sorted_wrt_append)
next
  case (CompleteTask now tid)
  then show ?thesis using assms by (simp add: map_id_mutate_first)
next
  case (UncompleteTask tid)
  then show ?thesis using assms by (simp add: map_id_mutate_first)
next
  case (UpdateTask tid ttl descr prio)
  then show ?thesis using assms by (simp add: map_id_mutate_first task_id_apply_update)
next
  case (DeleteTask tid)
  then show ?thesis
    using assms pop_first_sorted [of tid ts _ "\<lambda>a b. task_id a < task_id b"]
    by (auto simp: sorted_wrt_map split: option.splits)
next
  case ClearCompleted
  then show ?thesis
    using assms by (simp add: sorted_wrt_map sorted_wrt_filter)
qed (use assms in simp_all)

lemma ids_mutate_first:
  "(\<And>t. task_id (f t) = task_id t) \<Longrightarrow>
   task_id ` set (mutate_first tid f ts) = task_id ` set ts"
  using arg_cong [OF map_id_mutate_first, of f set tid ts] by simp

lemma ids_effect_subset:
  assumes "\<And>now ttl prio descr. c \<noteq> AddTask now ttl prio descr"
  shows "task_id ` set (effect c ts) \<subseteq> task_id ` set ts"
proof (cases c)
  case (AddTask now ttl prio descr)
  then show ?thesis using assms by simp
next
  case (DeleteTask tid)
  then show ?thesis using pop_first_subset [of tid ts] by (auto split: option.splits)
next
  case ClearCompleted
  then show ?thesis by auto
qed (simp_all add: ids_mutate_first task_id_apply_update)

lemma ids_effect_bound:
  assumes "\<And>now ttl prio descr. c \<noteq> AddTask now ttl prio descr"
    and "\<forall>u\<in>set ts. task_id u \<le> k"
  shows "\<forall>u\<in>set (effect c ts). task_id u \<le> k"
  using ids_effect_subset [OF assms(1), of ts] assms(2) by fastforce

lemma step_add:
  assumes "tasks J m = Inr (ts, m1)"
  shows "\<exists>t st. step J (AddTask now ttl prio descr) m =
            Inr (RTask t, \<lparr>tasks_attr = Some (effect (AddTask now ttl prio descr) ts),
                           storage = st\<rparr>)
          \<and> task_id t = get_next_id ts"
  using assms tasks_result_eq [OF assms]
  by (simp add: returning_def add_task_def Let_def save_loaded)

lemma returning_result:
  "returning C x = Inr (r, m) \<Longrightarrow> \<exists>y. r = C y"
  by (auto simp: returning_def split: sum.splits)

lemma step_not_add:
  assumes "\<And>now ttl prio descr. c \<noteq> AddTask now ttl prio descr"
    and "step J c m = Inr (r, m2)"
  shows "r \<noteq> RTask t"
  using assms by (cases c) (auto dest: returning_result)

lemma added_ids_other: "(\<And>t. r \<noteq> RTask t) \<Longrightarrow> added_ids (r # rs) = added_ids rs"
  by (cases r) auto

lemma previous_kept_add:
  "step J c m = Inr (RTask t, m2) \<Longrightarrow>
   previous_kept J prev (c # cs) m =
     ((case prev of None \<Rightarrow> True | Some k \<Rightarrow> has_task J k m)
      \<and> previous_kept J (Some (task_id t)) cs m2)"
  by simp

lemma previous_kept_other:
  "step J c m = Inr (r, m2) \<Longrightarrow> (\<And>t. r \<noteq> RTask t) \<Longrightarrow>
   previous_kept J prev (c # cs) m = previous_kept J prev cs m2"
  by (cases r) auto

lemma has_task_in:
  assumes "tasks J m = Inr (ts, m1)" and "has_task J k m"
  shows "k \<in> task_id ` set ts"
proof -
  from assms obtain t where "find (\<lambda>t. task_id t = k) ts = Some t"
    by (auto simp: has_task_def get_task_def split: option.splits)
  then show ?thesis
    by (auto simp: find_Some_iff)
qed

lemma run_Cons:
  assumes "run J (c # cs) m = Inr (rs, m3)"
  obtains r m2 rs' where "step J c m = Inr (r, m2)" "run J cs m2 = Inr (rs', m3)"
    "rs = r # rs'"
  using assms by (auto split: sum.splits)

lemma added_after:
  assumes "tasks J m = Inr (ts, m1)" and "\<forall>u\<in>set ts. task_id u \<le> k"
    and "previous_kept J (Some k) cs m" and "run J cs m = Inr (rs, m3)"
  shows "sorted_wrt (<) (added_ids rs) \<and> (\<forall>i\<in>set (added_ids rs). k < i)"
  using assms
proof (induction cs arbitrary: m ts m1 k rs)
  case Nil
  then show ?case by auto
next
  case (Cons c cs)
  from Cons.prems(4) obtain r m2 rs' where
    s: "step J c m = Inr (r, m2)" and r: "run J cs m2 = Inr (rs', m3)" and rs: "rs = r # rs'"
    by (rule run_Cons)
  obtain r0 st where e: "step J c m = Inr (r0, \<lparr>tasks_attr = Some (effect c ts), storage = st\<rparr>)"
    using step_effect [OF Cons.prems(1)] by blast
  with s have m2: "m2 = \<lparr>tasks_attr = Some (effect c ts), storage = st\<rparr>" by simp
  have t2: "tasks J m2 = Inr (effect c ts, m2)"
    unfolding m2 by (rule tasks_loaded)
  show ?case
  proof (cases "\<exists>now ttl prio descr. c = AddTask now ttl prio descr")
    case True
    then obtain now ttl prio descr where c: "c = AddTask now ttl prio descr" by blast
    obtain t where t: "r = RTask t" "task_id t = get_next_id ts"
      using step_add [OF Cons.prems(1), of now ttl prio descr] s c by auto
    have kept: "has_task J k m" "previous_kept J (Some (task_id t)) cs m2"
      using Cons.prems(3) s t(1) by (simp_all add: previous_kept_add)
    have "k \<in> task_id ` set ts"
      using has_task_in [OF Cons.prems(1) kept(1)] .
    then have lt: "k < task_id t"
      using get_next_id_gt [of _ ts] t(2) by auto
    have bound: "\<forall>u\<in>set (effect c ts). task_id u \<le> task_id t"
      using get_next_id_gt [of _ ts] t(2) c by (auto simp: less_imp_le)
    have ih: "sorted_wrt (<) (added_ids rs') \<and> (\<forall>i\<in>set (added_ids rs'). task_id t < i)"
      using Cons.IH [OF t2 bound kept(2) r] .
    show ?thesis
      using ih lt rs t(1) by auto
  next
    case False
    then have na: "\<And>now ttl prio descr. c \<noteq> AddTask now ttl prio descr" by blast
    have nr: "\<And>t. r \<noteq> RTask t"
      using step_not_add [OF na s] .
    have kept: "previous_kept J (Some k) cs m2"
      using Cons.prems(3) previous_kept_other [OF s nr] by simp
    have bound: "\<forall>u\<in>set (effect c ts). task_id u \<le> k"
      using ids_effect_bound [OF na Cons.prems(2)] .
    show ?thesis
      using Cons.IH [OF t2 bound kept r] rs added_ids_other [OF nr] by simp
  qed
qed

lemma effect_empty:
  "(\<And>now ttl prio descr. c \<noteq> AddTask now ttl prio descr) \<Longrightarrow> effect c [] = []"
  by (cases c) auto

lemma added_from_empty:
  assumes "tasks J m = Inr ([], m1)"
    and "previous_kept J None cs m" and "run J cs m = Inr (rs, m3)"
  shows "sorted_wrt (<) (added_ids rs)"
  using assms
proof (induction cs arbitrary: m m1 rs)
  case Nil
  then show ?case by auto
next
  case (Cons c cs)
  from Cons.prems(3) obtain r m2 rs' where
    s: "step J c m = Inr (r, m2)" and r: "run J cs m2 = Inr (rs', m3)" and rs: "rs = r # rs'"
    by (rule run_Cons)
  obtain r0 st where e: "step J c m = Inr (r0, \<lparr>tasks_attr = Some (effect c []), storage = st\<rparr>)"
    using step_effect [OF Cons.prems(1)] by blast
  with s have m2: "m2 = \<lparr>tasks_attr = Some (effect c []), storage = st\<rparr>" by simp
  have t2: "tasks J m2 = Inr (effect c [], m2)"
    unfolding m2 by (rule tasks_loaded)
  show ?case
  proof (cases "\<exists>now ttl prio descr. c = AddTask now ttl prio descr")
    case True
    then obtain now ttl prio descr where c: "c = AddTask now ttl prio descr" by blast
    obtain t where t: "r = RTask t" "task_id t = get_next_id []"
      using step_add [OF Cons.prems(1), of now ttl prio descr] s c by auto
    have kept: "previous_kept J (Some (task_id t)) cs m2"
      using Cons.prems(2) s t(1) by (simp add: previous_kept_add)
    have bound: "\<forall>u\<in>set (effect c []). task_id u \<le> task_id t"
      using t(2) c by simp
    have "sorted_wrt (<) (added_ids rs') \<and> (\<forall>i\<in>set (added_ids rs'). task_id t < i)"
      using added_after [OF t2 bound kept r] .
    then show ?thesis
      using rs t(1) by auto
  next
    case False
    then have na: "\<And>now ttl prio descr. c \<noteq> AddTask now ttl prio descr" by blast
    have nr: "\<And>t. r \<noteq> RTask t"
      using step_not_add [OF na s] .
    have kept: "previous_kept J None cs m2"
      using Cons.prems(2) previous_kept_other [OF s nr] by simp
    have t2': "tasks J m2 = Inr ([], m2)"
      using t2 effect_empty [OF na] by simp
    show ?thesis
      using Cons.IH [OF t2' kept r] rs added_ids_other [OF nr] by simp
  qed
qed

text \<open>
  C1 as stated fails. \<open>get_next_id\<close> is one more than the largest id in the collection,
  so deleting the task with the largest id frees that id: after \<open>add_task\<close>,
  \<open>delete_task(1)\<close>, \<open>add_task\<close> on a fresh manager both calls of \<open>add_task\<close> return the
  id 1.
\<close>

theorem ids_reused_after_delete:
  "run (json_codec 1000)
     [AddTask ''2024-01-01T09:00:00'' ''Test'' ''high'' [],
      DeleteTask 1,
      AddTask ''2024-01-01T09:00:00'' ''Test'' ''high'' []] fresh
     = Inr ([RTask sample_task, RBool True, RTask sample_task],
            \<lparr>tasks_attr = Some [sample_task],
             storage = \<lparr>data_file = Text (json_dumps [sample_task]), saves = 3\<rparr>\<rparr>)
   \<and> added_ids [RTask sample_task, RBool True, RTask sample_task] = [1, 1]
   \<and> \<not> sorted_wrt (<) (added_ids [RTask sample_task, RBool True, RTask sample_task])
   \<and> \<not> distinct (added_ids [RTask sample_task, RBool True, RTask sample_task])"
  by (simp add: returning_def add_task_def delete_task_def tasks_def save_def
      save_tasks_def load_tasks_def fresh_def Let_def lower_def lower_char_def
      PRIORITIES_def json_codec_def sample_task_def)

text \<open>
  C1, amended. On a manager whose collection is empty at the start, every sequence of
  calls (with any calls of \<open>delete_task\<close> and \<open>clear_completed\<close> among them) returns, and
  the ids of the collection it leaves are strictly increasing in the order of the
  collection, hence pairwise distinct. The ids that the successive calls of \<open>add_task\<close>
  return are strictly increasing, and none is returned twice, provided that at each
  call of \<open>add_task\<close> the task created by the previous call of \<open>add_task\<close> is still in the
  collection (\<open>previous_kept\<close>). Every single call of \<open>add_task\<close> returns
  \<open>get_next_id\<close> of the collection, an id greater than every id in it.
\<close>

theorem added_ids_increase_while_previous_kept:
  assumes "tasks J m0 = Inr ([], m1)"
  shows "(\<exists>rs m ts m2. run J cs m0 = Inr (rs, m) \<and> tasks J m = Inr (ts, m2)
            \<and> sorted_wrt (<) (map task_id ts)
            \<and> distinct (map task_id ts)
            \<and> (previous_kept J None cs m0 \<longrightarrow>
                  sorted_wrt (<) (added_ids rs) \<and> distinct (added_ids rs)))
       \<and> (tasks J m = Inr (ts', m3) \<longrightarrow>
            (\<exists>t m4. add_task J now ttl prio descr m = Inr (t, m4)
                \<and> task_id t = get_next_id ts'
                \<and> (\<forall>u\<in>set ts'. task_id u < task_id t)))"
proof
  obtain rs m ts m2 where r: "run J cs m0 = Inr (rs, m)" "tasks J m = Inr (ts, m2)"
      "sorted_wrt (<) (map task_id ts)"
    using run_invariant [where I = "\<lambda>ts. sorted_wrt (<) (map task_id ts)",
        OF assms _ sorted_ids_effect, of cs]
    by auto
  have d: "distinct xs" if "sorted_wrt (<) xs" for xs :: "int list"
    using that strict_sorted_iff by blast
  have "previous_kept J None cs m0 \<Longrightarrow> sorted_wrt (<) (added_ids rs)"
    using added_from_empty [OF assms _ r(1)] by simp
  then show "\<exists>rs m ts m2. run J cs m0 = Inr (rs, m) \<and> tasks J m = Inr (ts, m2)
            \<and> sorted_wrt (<) (map task_id ts)
            \<and> distinct (map task_id ts)
            \<and> (previous_kept J None cs m0 \<longrightarrow>
                  sorted_wrt (<) (added_ids rs) \<and> distinct (added_ids rs))"
    using r d by blast
next
  show "tasks J m = Inr (ts', m3) \<longrightarrow>
            (\<exists>t m4. add_task J now ttl prio descr m = Inr (t, m4)
                \<and> task_id t = get_next_id ts'
                \<and> (\<forall>u\<in>set ts'. task_id u < task_id t))"
  proof
    assume a: "tasks J m = Inr (ts', m3)"
    show "\<exists>t m4. add_task J now ttl prio descr m = Inr (t, m4)
                \<and> task_id t = get_next_id ts'
                \<and> (\<forall>u\<in>set ts'. task_id u < task_id t)"
      using add_task_loaded [OF a, of now ttl prio descr] get_next_id_gt [of _ ts']
      by (simp add: Let_def)
  qed
qed

theorem added_ids_increase_while_previous_kept_witness:
  "tasks (json_codec 1000) fresh = Inr ([], fresh\<lparr>tasks_attr := Some []\<rparr>)
   \<and> previous_kept (json_codec 1000) None
        [AddTask ''2024-01-01T09:00:00'' ''Test'' ''high'' [],
         AddTask ''2024-01-01T09:30:00'' ''Next'' ''low'' [],
         DeleteTask 1,
         AddTask ''2024-01-01T10:00:00'' ''Last'' ''low'' []] fresh
   \<and> (\<exists>rs m ts m2.
         run (json_codec 1000)
           [AddTask ''2024-01-01T09:00:00'' ''Test'' ''high'' [],
            AddTask ''2024-01-01T09:30:00'' ''Next'' ''low'' [],
            DeleteTask 1,
            AddTask ''2024-01-01T10:00:00'' ''Last'' ''low'' []] fresh = Inr (rs, m)
         \<and> tasks (json_codec 1000) m = Inr (ts, m2)
         \<and> sorted_wrt (<) (map task_id ts) \<and> distinct (map task_id ts)
         \<and> sorted_wrt (<) (added_ids rs) \<and> distinct (added_ids rs))
   \<and> tasks (json_codec 1000) sample_manager = Inr ([sample_task, done_task], sample_manager)
   \<and> (\<exists>t m4. add_task (json_codec 1000) ''2024-01-01T10:00:00'' ''Last'' ''low'' []
                 sample_manager = Inr (t, m4)
             \<and> task_id t = 3
             \<and> (\<forall>u\<in>set [sample_task, done_task]. task_id u < task_id t))"
proof -
  let ?cs = "[AddTask ''2024-01-01T09:00:00'' ''Test'' ''high'' [],
              AddTask ''2024-01-01T09:30:00'' ''Next'' ''low'' [],
              DeleteTask 1,
              AddTask ''2024-01-01T10:00:00'' ''Last'' ''low'' []]"
  have h: "tasks (json_codec 1000) fresh = Inr ([], fresh\<lparr>tasks_attr := Some []\<rparr>)"
    by (rule tasks_fresh)
  have k: "previous_kept (json_codec 1000) None ?cs fresh"
    by (simp add: returning_def add_task_def delete_task_def tasks_def save_def
        save_tasks_def load_tasks_def fresh_def Let_def lower_def lower_char_def
        PRIORITIES_def json_codec_def sample_task_def has_task_def
        get_task_def)
  have l: "tasks (json_codec 1000) sample_manager
             = Inr ([sample_task, done_task], sample_manager)"
    by (rule tasks_sample_manager)
  have n: "get_next_id [sample_task, done_task] = 3"
    by (simp add: sample_task_def done_task_def)
  note t = added_ids_increase_while_previous_kept [OF h,
      where cs = ?cs and m = sample_manager and ts' = "[sample_task, done_task]"
        and ?m3.0 = sample_manager and now = "''2024-01-01T10:00:00''"
        and ttl = "''Last''" and prio = "''low''" and descr = "[]"]
  show ?thesis
    using h k l t unfolding n by blast
qed

end
